theory Spec2Isabelle
  imports Complex_Main "HOL-Library.Word"
begin

section \<open>The speech-audio pipeline of services/geminiService.ts\<close>

text \<open>
  The embedding follows the TTS part of \<^verbatim>\<open>src/services/geminiService.ts\<close>
  (lines 212 to 361): \<^verbatim>\<open>getAudioContext\<close>, \<^verbatim>\<open>resumeAudioContext\<close>,
  \<^verbatim>\<open>decodeBase64\<close>, \<^verbatim>\<open>fetchAndDecodeTTS\<close>, \<^verbatim>\<open>getTTSBuffer\<close>,
  \<^verbatim>\<open>playBuffer\<close>, \<^verbatim>\<open>playTTS\<close> and \<^verbatim>\<open>prefetchTTS\<close>.

  A JavaScript string is a sequence of 16-bit code units, a \<^verbatim>\<open>Uint8Array\<close> a list of
  bytes. Exceptions are values of the type \<open>error\<close>.
\<close>

subsection \<open>Strings, bytes and errors\<close>

type_synonym jsstring = "16 word list"
type_synonym byte = "8 word"

datatype error =
    ApiKeyNotFound          \<comment> \<open>\<^verbatim>\<open>throw new Error("API Key not found")\<close> of getAiClient\<close>
  | AudioContextError       \<comment> \<open>\<^verbatim>\<open>new AudioContextClass()\<close> throws\<close>
  | TransportError          \<comment> \<open>\<^verbatim>\<open>generateContent\<close> rejects\<close>
  | NoAudioData             \<comment> \<open>\<^verbatim>\<open>throw new Error("No audio data received from Gemini")\<close>\<close>
  | InvalidCharacterError   \<comment> \<open>\<^verbatim>\<open>atob\<close> throws\<close>
  | NotSupportedError       \<comment> \<open>\<^verbatim>\<open>createBuffer\<close> throws\<close>

text \<open>\<^verbatim>\<open>!s\<close> on a string: only the empty string is falsy.\<close>

definition falsy :: "jsstring \<Rightarrow> bool" where
  "falsy s \<longleftrightarrow> s = []"

text \<open>
  \<^verbatim>\<open>String.prototype.trim\<close> removes the WhiteSpace and LineTerminator code points of
  ECMAScript from both ends; all of them are single code units.
\<close>

definition isWhiteSpace :: "16 word \<Rightarrow> bool" where
  "isWhiteSpace c \<longleftrightarrow>
     c \<in> {0x0009, 0x000A, 0x000B, 0x000C, 0x000D, 0x0020, 0x00A0, 0x1680,
          0x2028, 0x2029, 0x202F, 0x205F, 0x3000, 0xFEFF}
     \<or> (0x2000 \<le> c \<and> c \<le> 0x200A)"

definition trim :: "jsstring \<Rightarrow> jsstring" where
  "trim s = rev (dropWhile isWhiteSpace (rev (dropWhile isWhiteSpace s)))"

subsection \<open>The platform's \<^verbatim>\<open>atob\<close>\<close>

text \<open>
  \<^verbatim>\<open>atob\<close> is the browser's function, not code of the repository. It is modelled after
  its definition in the HTML standard (forgiving-base64 decode): ASCII whitespace is
  removed; if the length is then a multiple of four, one or two trailing \<^verbatim>\<open>=\<close> are
  removed; a length of 1 modulo 4 or a code unit outside the base64 alphabet is an
  \<^verbatim>\<open>InvalidCharacterError\<close>; every four sextets give three bytes, and a rest of two or
  three sextets gives one or two. The result is a binary string: one code unit per byte.
\<close>

definition isAsciiWhitespace :: "16 word \<Rightarrow> bool" where
  "isAsciiWhitespace c \<longleftrightarrow> c \<in> {0x09, 0x0A, 0x0C, 0x0D, 0x20}"

definition b64_index :: "16 word \<Rightarrow> nat option" where
  "b64_index c =
     (if 0x41 \<le> c \<and> c \<le> 0x5A then Some (unat c - 0x41)
      else if 0x61 \<le> c \<and> c \<le> 0x7A then Some (unat c - 0x61 + 26)
      else if 0x30 \<le> c \<and> c \<le> 0x39 then Some (unat c - 0x30 + 52)
      else if c = 0x2B then Some 62
      else if c = 0x2F then Some 63
      else None)"

definition strip_padding :: "jsstring \<Rightarrow> jsstring" where
  "strip_padding d =
     (if length d mod 4 = 0 then
        (if 2 \<le> length d \<and> drop (length d - 2) d = [0x3D, 0x3D] then take (length d - 2) d
         else if 1 \<le> length d \<and> drop (length d - 1) d = [0x3D] then take (length d - 1) d
         else d)
      else d)"

fun b64_bytes :: "nat list \<Rightarrow> nat list" where
  "b64_bytes (a # b # c # d # rest) =
     (let n = ((a * 64 + b) * 64 + c) * 64 + d
      in (n div 65536) # ((n div 256) mod 256) # (n mod 256) # b64_bytes rest)"
| "b64_bytes [a, b, c] =
     (let n = ((a * 64 + b) * 64 + c) div 4 in [n div 256, n mod 256])"
| "b64_bytes [a, b] = [(a * 64 + b) div 16]"
| "b64_bytes _ = []"

definition atob :: "jsstring \<Rightarrow> error + jsstring" where
  "atob data =
     (let d = strip_padding (filter (\<lambda>c. \<not> isAsciiWhitespace c) data)
      in if length d mod 4 = 1 then Inl InvalidCharacterError
         else if \<exists>c \<in> set d. b64_index c = None then Inl InvalidCharacterError
         else Inr (map of_nat (b64_bytes (map (\<lambda>c. the (b64_index c)) d))))"

subsection \<open>decodeBase64\<close>

text \<open>
  \<^verbatim>\<open>decodeBase64\<close> (lines 241 to 249) copies the code units of \<^verbatim>\<open>atob(base64)\<close> into
  a \<^verbatim>\<open>Uint8Array\<close> of the same length; storing into a \<^verbatim>\<open>Uint8Array\<close> keeps the
  low eight bits. The loop is the recursion over the index \<open>i\<close>.
\<close>

function decodeBase64_loop :: "jsstring \<Rightarrow> nat \<Rightarrow> byte list \<Rightarrow> byte list" where
  "decodeBase64_loop binaryString i bytes =
     (if i < length binaryString
      then decodeBase64_loop binaryString (i + 1) (bytes[i := ucast (binaryString ! i)])
      else bytes)"
  by pat_completeness auto
termination
  by (relation "measure (\<lambda>(b, i, bs). length b - i)") auto

declare decodeBase64_loop.simps [simp del]

definition decodeBase64 :: "jsstring \<Rightarrow> error + byte list" where
  "decodeBase64 base64 =
     (case atob base64 of
        Inl e \<Rightarrow> Inl e
      | Inr binaryString \<Rightarrow>
          Inr (decodeBase64_loop binaryString 0 (replicate (length binaryString) 0)))"

subsection \<open>The audio buffer and the conversion of the samples\<close>

text \<open>
  An \<^verbatim>\<open>AudioBuffer\<close> of the Web Audio API. The samples of a channel are 32-bit floats;
  every value the conversion below stores is a 16-bit integer divided by \<open>2^15\<close>, which
  a 32-bit float (24 bits of mantissa) represents exactly, so the samples are modelled
  by the reals they denote.

  \<^verbatim>\<open>createBuffer\<close> is the platform's: by the Web Audio API it throws a
  \<^verbatim>\<open>NotSupportedError\<close> when an argument is zero (the number of frames must be at least
  one); otherwise the buffer is zero-initialised. The upper limits of the arguments are
  the implementation's; the one call of the source passes 1 channel and 24000 Hz.
\<close>

record AudioBuffer =
  numberOfChannels :: nat
  sampleRate :: nat
  channels :: "real list list"

definition createBuffer :: "nat \<Rightarrow> nat \<Rightarrow> nat \<Rightarrow> error + AudioBuffer" where
  "createBuffer numChannels len rate =
     (if numChannels = 0 \<or> len = 0 \<or> rate = 0 then Inl NotSupportedError
      else Inr \<lparr> numberOfChannels = numChannels, sampleRate = rate,
                 channels = replicate numChannels (replicate len 0) \<rparr>)"

definition getChannelData :: "AudioBuffer \<Rightarrow> nat \<Rightarrow> real list" where
  "getChannelData b c = channels b ! c"

text \<open>
  \<^verbatim>\<open>new Int16Array(byteArray.buffer, byteArray.byteOffset, byteArray.length / 2)\<close>: a view
  of the bytes as 16-bit signed integers in the byte order of the platform, little-endian
  on every platform the application runs on: the first byte of a pair is the low one.
\<close>

fun int16_view :: "byte list \<Rightarrow> 16 word list" where
  "int16_view (lo # hi # rest) = word_cat hi lo # int16_view rest"
| "int16_view _ = []"

text \<open>The safety check of lines 282 to 285: an odd length loses its last byte.\<close>

definition trim_odd :: "byte list \<Rightarrow> byte list" where
  "trim_odd byteArray =
     (if length byteArray mod 2 \<noteq> 0 then take (length byteArray - 1) byteArray
      else byteArray)"

text \<open>The loop of lines 295 to 297, \<^verbatim>\<open>channelData[i] = dataInt16[i] / 32768.0\<close>.\<close>

function convert_loop :: "16 word list \<Rightarrow> nat \<Rightarrow> real list \<Rightarrow> real list" where
  "convert_loop dataInt16 i channelData =
     (if i < length dataInt16
      then convert_loop dataInt16 (i + 1)
             (channelData[i := real_of_int (sint (dataInt16 ! i)) / 32768])
      else channelData)"
  by pat_completeness auto
termination
  by (relation "measure (\<lambda>(d, i, c). length d - i)") auto

declare convert_loop.simps [simp del]

text \<open>
  Lines 279 to 299 of \<^verbatim>\<open>fetchAndDecodeTTS\<close>: from the base64 payload to the buffer.
  The channel data is a live view of the buffer, so the loop's writes are the buffer's
  channel 0.
\<close>

definition decode_pcm :: "byte list \<Rightarrow> error + AudioBuffer" where
  "decode_pcm bytes0 =
     (let byteArray = trim_odd bytes0 in
      case createBuffer 1 (length byteArray div 2) 24000 of
        Inl e \<Rightarrow> Inl e
      | Inr audioBuffer \<Rightarrow>
          (let channelData = getChannelData audioBuffer 0;
               dataInt16 = int16_view byteArray
           in Inr (audioBuffer \<lparr> channels :=
                     (channels audioBuffer)[0 := convert_loop dataInt16 0 channelData] \<rparr>)))"

definition decode_payload :: "jsstring \<Rightarrow> error + AudioBuffer" where
  "decode_payload base64Audio =
     (case decodeBase64 base64Audio of
        Inl e \<Rightarrow> Inl e
      | Inr bytes0 \<Rightarrow> decode_pcm bytes0)"

subsection \<open>Promises, the platform and the state of the module\<close>

text \<open>
  JavaScript runs one task at a time, each to completion; an \<^verbatim>\<open>await\<close> ends the running
  piece of a function and the rest runs later, when the awaited promise has settled. The
  model has one atomic step for each such piece. A promise is pending, fulfilled with a
  value, or rejected with an error.
\<close>

datatype 'a promise = Pending | Fulfilled 'a | Rejected error

datatype ctx_state = Suspended | Running

text \<open>
  What the code takes from its environment: \<^verbatim>\<open>process.env.API_KEY\<close> (line 4) and the
  outcome of \<^verbatim>\<open>new AudioContextClass()\<close> (line 222), which throws where the platform
  has no audio context, and otherwise gives a context that starts suspended or running.
\<close>

record platform =
  apiKey :: "jsstring option"
  newAudioContext :: "error + ctx_state"

text \<open>
  An \<^verbatim>\<open>AudioBuffer\<close> object is a reference into \<open>heap\<close>, so that two callers
  holding the same reference hold the same object.

  A \<open>job\<close> is one cache entry: one call of \<^verbatim>\<open>fetchAndDecodeTTS\<close> made by
  \<^verbatim>\<open>getTTSBuffer\<close> (line 311), with the arguments of the call, the promise of the call
  (\<open>pipeline\<close>) and the promise that \<^verbatim>\<open>.catch\<close> derives from it, which is the one
  stored in \<^verbatim>\<open>ttsCache\<close> (\<open>entry\<close>).
\<close>

type_synonym ref = nat

record job =
  job_key :: jsstring
  job_text :: jsstring
  job_lang :: jsstring
  pipeline :: "ref option promise"
  entry :: "ref option promise"

text \<open>
  A \<open>task\<close> is one call of \<^verbatim>\<open>playTTS\<close>: where it is suspended, or how it ended.
\<close>

datatype task =
    AwaitResume jsstring jsstring bool   \<comment> \<open>at line 336; the flag: \<^verbatim>\<open>ctx.resume()\<close> was called\<close>
  | AwaitFirst jsstring jsstring nat     \<comment> \<open>at line 339, on the entry of the job\<close>
  | AwaitRetry jsstring jsstring nat     \<comment> \<open>at line 347, on the entry of the job\<close>
  | Playing ref                          \<comment> \<open>at line 351, until \<^verbatim>\<open>onended\<close>\<close>
  | TDone                                \<comment> \<open>the promise of the call is fulfilled\<close>
  | TRejected error                      \<comment> \<open>the promise of the call is rejected\<close>

datatype evictor = ByHandler nat | ByPlay nat

text \<open>
  The module's variables are \<open>audioCtx\<close> (line 215) and \<open>ttsCache\<close> (line 217, the
  promise stored under a key is the \<open>entry\<close> of the job of that number). The other
  fields record what happened: the calls of \<^verbatim>\<open>fetchAndDecodeTTS\<close> in order (\<open>jobs\<close>),
  the buffers created, the calls of \<^verbatim>\<open>playTTS\<close>, the requests sent with
  \<^verbatim>\<open>generateContent\<close>, the calls of \<^verbatim>\<open>ttsCache.delete\<close> with the key and the caller,
  the calls of \<^verbatim>\<open>source.start\<close> with the buffer, and the value each task received from
  an entry it awaited (task, job, value).
\<close>

record state =
  audioCtx :: "ctx_state option"
  ttsCache :: "jsstring \<rightharpoonup> nat"
  jobs :: "job list"
  heap :: "AudioBuffer list"
  tasks :: "task list"
  requests :: "jsstring list"
  evictions :: "(jsstring \<times> evictor) list"
  started :: "ref list"
  obs :: "(nat \<times> nat \<times> ref option) list"

definition init :: state where
  "init = \<lparr> audioCtx = None, ttsCache = Map.empty, jobs = [], heap = [], tasks = [],
            requests = [], evictions = [], started = [], obs = [] \<rparr>"

subsection \<open>getAiClient, getAudioContext, resumeAudioContext\<close>

definition getAiClient :: "platform \<Rightarrow> error + unit" where
  "getAiClient pf =
     (case apiKey pf of
        None \<Rightarrow> Inl ApiKeyNotFound
      | Some k \<Rightarrow> if falsy k then Inl ApiKeyNotFound else Inr ())"

definition getAudioContext :: "platform \<Rightarrow> state \<Rightarrow> error + state" where
  "getAudioContext pf s =
     (case audioCtx s of
        Some c \<Rightarrow> Inr s
      | None \<Rightarrow>
          (case newAudioContext pf of
             Inl e \<Rightarrow> Inl e
           | Inr c \<Rightarrow> Inr (s \<lparr> audioCtx := Some c \<rparr>)))"

text \<open>
  \<^verbatim>\<open>resumeAudioContext\<close> up to its \<^verbatim>\<open>await\<close> (lines 229 to 233): the context is
  fetched outside the \<^verbatim>\<open>try\<close>, so its error is the function's; the flag says whether
  \<^verbatim>\<open>ctx.resume()\<close> was called. After the \<^verbatim>\<open>await\<close> (lines 233 to 236) a failed
  resume is only logged.
\<close>

definition resumeAudioContext_call :: "platform \<Rightarrow> state \<Rightarrow> error + (bool \<times> state)" where
  "resumeAudioContext_call pf s =
     (case getAudioContext pf s of
        Inl e \<Rightarrow> Inl e
      | Inr s' \<Rightarrow> Inr (audioCtx s' = Some Suspended, s'))"

definition resumeAudioContext_resume :: "bool \<Rightarrow> bool \<Rightarrow> state \<Rightarrow> state" where
  "resumeAudioContext_resume resuming ok s =
     (if resuming \<and> ok then s \<lparr> audioCtx := Some Running \<rparr> else s)"

subsection \<open>fetchAndDecodeTTS\<close>

text \<open>
  The call runs up to the \<^verbatim>\<open>await\<close> of \<^verbatim>\<open>generateContent\<close> (lines 252 to 271):
  the guard returns null; an exception of \<^verbatim>\<open>getAiClient\<close> or \<^verbatim>\<open>getAudioContext\<close>
  rejects the promise of the call; otherwise the request is sent and the promise is
  pending.
\<close>

definition fetchAndDecodeTTS_call ::
  "platform \<Rightarrow> jsstring \<Rightarrow> jsstring \<Rightarrow> state \<Rightarrow> ref option promise \<times> state" where
  "fetchAndDecodeTTS_call pf text lang s =
     (if falsy text \<or> falsy (trim text) then (Fulfilled None, s)
      else case getAiClient pf of
             Inl e \<Rightarrow> (Rejected e, s)
           | Inr _ \<Rightarrow>
               (case getAudioContext pf s of
                  Inl e \<Rightarrow> (Rejected e, s)
                | Inr s' \<Rightarrow> (Pending, s' \<lparr> requests := requests s' @ [text] \<rparr>)))"

text \<open>
  The outcome of the request: \<^verbatim>\<open>generateContent\<close> rejects, or it gives a response, of
  which the code reads \<^verbatim>\<open>candidates?.[0]?.content?.parts?.[0]?.inlineData?.data\<close>
  (\<open>None\<close> when that is undefined). The rest of the function (lines 273 to 299)
  computes a buffer from it or throws; the buffer is a new object.
\<close>

datatype response = Failure | Reply "jsstring option"

definition decode_response :: "response \<Rightarrow> error + AudioBuffer" where
  "decode_response resp =
     (case resp of
        Failure \<Rightarrow> Inl TransportError
      | Reply None \<Rightarrow> Inl NoAudioData
      | Reply (Some base64Audio) \<Rightarrow>
          if falsy base64Audio then Inl NoAudioData else decode_payload base64Audio)"

definition fetchAndDecodeTTS_resume :: "response \<Rightarrow> state \<Rightarrow> ref option promise \<times> state" where
  "fetchAndDecodeTTS_resume resp s =
     (case decode_response resp of
        Inl e \<Rightarrow> (Rejected e, s)
      | Inr audioBuffer \<Rightarrow>
          (Fulfilled (Some (length (heap s))), s \<lparr> heap := heap s @ [audioBuffer] \<rparr>))"

subsection \<open>getTTSBuffer\<close>

definition cacheKey :: "jsstring \<Rightarrow> jsstring \<Rightarrow> jsstring" where
  "cacheKey lang text = lang @ [0x3A] @ text"

text \<open>
  Lines 303 to 319. The function has no \<^verbatim>\<open>await\<close>: it runs as one piece. Its result is
  the job whose entry the returned promise follows.
\<close>

definition getTTSBuffer :: "platform \<Rightarrow> jsstring \<Rightarrow> jsstring \<Rightarrow> state \<Rightarrow> nat \<times> state" where
  "getTTSBuffer pf text lang s =
     (case ttsCache s (cacheKey lang text) of
        Some j \<Rightarrow> (j, s)
      | None \<Rightarrow>
          (let (p, s1) = fetchAndDecodeTTS_call pf text lang s;
               j = length (jobs s1)
           in (j, s1 \<lparr> jobs := jobs s1 @ [\<lparr> job_key = cacheKey lang text, job_text = text,
                                             job_lang = lang, pipeline = p, entry = Pending \<rparr>],
                       ttsCache := (ttsCache s1)(cacheKey lang text \<mapsto> j) \<rparr>)))"

text \<open>
  The handler given to \<^verbatim>\<open>.catch\<close> (lines 311 to 315): it logs, deletes the key and
  returns null.
\<close>

definition catch_handler :: "nat \<Rightarrow> jsstring \<Rightarrow> error \<Rightarrow> state \<Rightarrow> ref option \<times> state" where
  "catch_handler j key err s =
     (None, s \<lparr> ttsCache := (ttsCache s)(key := None),
                evictions := evictions s @ [(key, ByHandler j)] \<rparr>)"

text \<open>
  The pipeline promise of job \<open>j\<close> settles (with the outcome of the request, where one
  is pending) and the promise derived by \<^verbatim>\<open>.catch\<close> follows: the value of a fulfilled
  pipeline, or what the handler returns for a rejected one.
\<close>

definition settle :: "nat \<Rightarrow> response \<Rightarrow> state \<Rightarrow> state" where
  "settle j resp s =
     (let jb = jobs s ! j;
          (p, s1) = (case pipeline jb of
                       Pending \<Rightarrow> fetchAndDecodeTTS_resume resp s
                     | Fulfilled v \<Rightarrow> (Fulfilled v, s)
                     | Rejected e \<Rightarrow> (Rejected e, s))
      in case p of
           Pending \<Rightarrow> s1
         | Fulfilled v \<Rightarrow>
             s1 \<lparr> jobs := (jobs s1)[j := jb \<lparr> pipeline := p, entry := Fulfilled v \<rparr>] \<rparr>
         | Rejected err \<Rightarrow>
             (let (v, s2) = catch_handler j (job_key jb) err s1
              in s2 \<lparr> jobs := (jobs s2)[j := jb \<lparr> pipeline := p, entry := Fulfilled v \<rparr>] \<rparr>))"

subsection \<open>playBuffer, playTTS, prefetchTTS\<close>

text \<open>
  \<^verbatim>\<open>playBuffer\<close> (lines 322 to 330) starts a source for the buffer; its promise is
  fulfilled by \<^verbatim>\<open>onended\<close>. On a fresh source node of a context that is never closed,
  none of its calls throws.
\<close>

definition playBuffer :: "ref \<Rightarrow> state \<Rightarrow> state" where
  "playBuffer buffer s = s \<lparr> started := started s @ [buffer] \<rparr>"

text \<open>
  \<^verbatim>\<open>playTTS\<close> from the call to its first \<^verbatim>\<open>await\<close> (lines 334 to 336). A rejection of
  \<^verbatim>\<open>resumeAudioContext\<close> is not caught, so it is the rejection of \<^verbatim>\<open>playTTS\<close>.
\<close>

definition playTTS_call :: "platform \<Rightarrow> jsstring \<Rightarrow> jsstring \<Rightarrow> state \<Rightarrow> state" where
  "playTTS_call pf text lang s =
     (if falsy text then s \<lparr> tasks := tasks s @ [TDone] \<rparr>
      else case resumeAudioContext_call pf s of
             Inl e \<Rightarrow> s \<lparr> tasks := tasks s @ [TRejected e] \<rparr>
           | Inr (resuming, s') \<Rightarrow> s' \<lparr> tasks := tasks s' @ [AwaitResume text lang resuming] \<rparr>)"

text \<open>Lines 337 to 339, after \<^verbatim>\<open>resumeAudioContext\<close> has finished.\<close>

definition playTTS_resumed :: "platform \<Rightarrow> nat \<Rightarrow> jsstring \<Rightarrow> jsstring \<Rightarrow> state \<Rightarrow> state" where
  "playTTS_resumed pf t text lang s =
     (case getAudioContext pf s of
        Inl e \<Rightarrow> s \<lparr> tasks := (tasks s)[t := TRejected e] \<rparr>
      | Inr s1 \<Rightarrow>
          (let (j, s2) = getTTSBuffer pf text lang s1
           in s2 \<lparr> tasks := (tasks s2)[t := AwaitFirst text lang j] \<rparr>))"

text \<open>
  Lines 341 to 351, when the first \<^verbatim>\<open>getTTSBuffer\<close> has given \<open>buffer\<close>: a null
  buffer deletes the key and asks again.
\<close>

definition playTTS_first :: "platform \<Rightarrow> nat \<Rightarrow> jsstring \<Rightarrow> jsstring \<Rightarrow> ref option \<Rightarrow> state \<Rightarrow> state" where
  "playTTS_first pf t text lang buffer s =
     (case buffer of
        None \<Rightarrow>
          (let s1 = s \<lparr> ttsCache := (ttsCache s)(cacheKey lang text := None),
                        evictions := evictions s @ [(cacheKey lang text, ByPlay t)] \<rparr>;
               (j, s2) = getTTSBuffer pf text lang s1
           in s2 \<lparr> tasks := (tasks s2)[t := AwaitRetry text lang j] \<rparr>)
      | Some b \<Rightarrow> (playBuffer b s) \<lparr> tasks := (tasks s)[t := Playing b] \<rparr>)"

text \<open>Lines 350 to 354, when the second \<^verbatim>\<open>getTTSBuffer\<close> has given \<open>buffer\<close>.\<close>

definition playTTS_retry :: "nat \<Rightarrow> ref option \<Rightarrow> state \<Rightarrow> state" where
  "playTTS_retry t buffer s =
     (case buffer of
        None \<Rightarrow> s \<lparr> tasks := (tasks s)[t := TDone] \<rparr>
      | Some b \<Rightarrow> (playBuffer b s) \<lparr> tasks := (tasks s)[t := Playing b] \<rparr>)"

text \<open>
  \<^verbatim>\<open>prefetchTTS\<close> (lines 358 to 361) has no \<^verbatim>\<open>await\<close>; the handler it attaches does
  nothing.
\<close>

definition prefetchTTS :: "platform \<Rightarrow> jsstring \<Rightarrow> jsstring \<Rightarrow> state \<Rightarrow> state" where
  "prefetchTTS pf text lang s =
     (if falsy text then s else snd (getTTSBuffer pf text lang s))"

subsection \<open>The steps of the event loop\<close>

text \<open>
  An event is a call of one of the two exported functions, or the continuation of
  something suspended: \<^verbatim>\<open>resumeAudioContext\<close> has finished for a task (with the outcome
  of \<^verbatim>\<open>ctx.resume()\<close>), the pipeline of a job settles (with the outcome of its request),
  a task receives the value of the entry it awaits, the playback of a task has ended.
  \<open>step\<close> is \<open>None\<close> where the event cannot happen. Any order of the enabled events
  is allowed, which includes the orders of the JavaScript event loop.
\<close>

datatype event =
    CallPlay jsstring jsstring
  | CallPrefetch jsstring jsstring
  | Resumed nat bool
  | Settle nat response
  | Wake nat
  | Ended nat

definition wake :: "platform \<Rightarrow> nat \<Rightarrow> state \<Rightarrow> state option" where
  "wake pf t s =
     (case tasks s ! t of
        AwaitFirst text lang j \<Rightarrow>
          (if j < length (jobs s) then
             (case entry (jobs s ! j) of
                Pending \<Rightarrow> None
              | Fulfilled v \<Rightarrow>
                  Some (playTTS_first pf t text lang v (s \<lparr> obs := obs s @ [(t, j, v)] \<rparr>))
              | Rejected e \<Rightarrow> Some (s \<lparr> tasks := (tasks s)[t := TRejected e] \<rparr>))
           else None)
      | AwaitRetry text lang j \<Rightarrow>
          (if j < length (jobs s) then
             (case entry (jobs s ! j) of
                Pending \<Rightarrow> None
              | Fulfilled v \<Rightarrow> Some (playTTS_retry t v (s \<lparr> obs := obs s @ [(t, j, v)] \<rparr>))
              | Rejected e \<Rightarrow> Some (s \<lparr> tasks := (tasks s)[t := TRejected e] \<rparr>))
           else None)
      | _ \<Rightarrow> None)"

fun step :: "platform \<Rightarrow> event \<Rightarrow> state \<Rightarrow> state option" where
  "step pf (CallPlay text lang) s = Some (playTTS_call pf text lang s)"
| "step pf (CallPrefetch text lang) s = Some (prefetchTTS pf text lang s)"
| "step pf (Resumed t ok) s =
     (if t < length (tasks s) then
        (case tasks s ! t of
           AwaitResume text lang resuming \<Rightarrow>
             Some (playTTS_resumed pf t text lang (resumeAudioContext_resume resuming ok s))
         | _ \<Rightarrow> None)
      else None)"
| "step pf (Settle j resp) s =
     (if j < length (jobs s) \<and> entry (jobs s ! j) = Pending then Some (settle j resp s)
      else None)"
| "step pf (Wake t) s = (if t < length (tasks s) then wake pf t s else None)"
| "step pf (Ended t) s =
     (if t < length (tasks s) then
        (case tasks s ! t of
           Playing b \<Rightarrow> Some (s \<lparr> tasks := (tasks s)[t := TDone] \<rparr>)
         | _ \<Rightarrow> None)
      else None)"

fun run :: "platform \<Rightarrow> event list \<Rightarrow> state \<Rightarrow> state option" where
  "run pf [] s = Some s"
| "run pf (e # es) s = (case step pf e s of None \<Rightarrow> None | Some s' \<Rightarrow> run pf es s')"

definition reachable :: "platform \<Rightarrow> state \<Rightarrow> bool" where
  "reachable pf s \<longleftrightarrow> (\<exists>es. run pf es init = Some s)"

text \<open>The calls of \<^verbatim>\<open>fetchAndDecodeTTS\<close> made so far for a key.\<close>

definition invocations :: "jsstring \<Rightarrow> state \<Rightarrow> nat" where
  "invocations k s = length (filter (\<lambda>jb. job_key jb = k) (jobs s))"

subsection \<open>Invariants of the reachable states\<close>

text \<open>
  The notions of this and the next subsection are not code: they state what holds of every
  state the module can reach, and name what the theorems speak about.

  A key of the cache leads to a job of that key.
\<close>

definition cache_inv :: "state \<Rightarrow> bool" where
  "cache_inv s \<longleftrightarrow>
     (\<forall>k j. ttsCache s k = Some j \<longrightarrow> j < length (jobs s) \<and> job_key (jobs s ! j) = k)"

text \<open>
  A job was called with a text that is not empty, under the key of its arguments; its
  entry is never rejected, and a fulfilled entry carries the value of the pipeline, or
  null for a rejected pipeline.
\<close>

definition job_inv :: "job \<Rightarrow> bool" where
  "job_inv jb \<longleftrightarrow>
     job_text jb \<noteq> [] \<and> job_key jb = cacheKey (job_lang jb) (job_text jb)
     \<and> (\<forall>e. entry jb \<noteq> Rejected e)
     \<and> (\<forall>v. entry jb = Fulfilled v \<longrightarrow>
            pipeline jb = Fulfilled v \<or> (v = None \<and> (\<exists>e. pipeline jb = Rejected e)))"

definition jobs_inv :: "state \<Rightarrow> bool" where
  "jobs_inv s \<longleftrightarrow> (\<forall>j < length (jobs s). job_inv (jobs s ! j))"

text \<open>What a task received from an entry is the value the entry is fulfilled with.\<close>

definition obs_inv :: "state \<Rightarrow> bool" where
  "obs_inv s \<longleftrightarrow>
     (\<forall>t j v. (t, j, v) \<in> set (obs s) \<longrightarrow> j < length (jobs s) \<and> entry (jobs s ! j) = Fulfilled v)"

text \<open>
  The number of times the \<^verbatim>\<open>.catch\<close> handler of job \<open>j\<close> has called
  \<^verbatim>\<open>ttsCache.delete\<close>. A job has failed when its pipeline is rejected and its entry has
  settled, that is, when the handler has seen the rejection.
\<close>

definition handler_evictions :: "nat \<Rightarrow> state \<Rightarrow> nat" where
  "handler_evictions j s = count_list (map snd (evictions s)) (ByHandler j)"

definition failed :: "job \<Rightarrow> bool" where
  "failed jb \<longleftrightarrow> entry jb \<noteq> Pending \<and> (\<exists>e. pipeline jb = Rejected e)"

definition evict_inv :: "state \<Rightarrow> bool" where
  "evict_inv s \<longleftrightarrow>
     (\<forall>j. handler_evictions j s = (if j < length (jobs s) \<and> failed (jobs s ! j) then 1 else 0))
     \<and> (\<forall>k j. (k, ByHandler j) \<in> set (evictions s) \<longrightarrow>
            j < length (jobs s) \<and> k = job_key (jobs s ! j))"

definition data_inv :: "state \<Rightarrow> bool" where
  "data_inv s \<longleftrightarrow> cache_inv s \<and> jobs_inv s \<and> obs_inv s \<and> evict_inv s"

text \<open>A task that still has to call \<^verbatim>\<open>getTTSBuffer\<close> holds a text that is not empty.\<close>

fun task_inv :: "task \<Rightarrow> bool" where
  "task_inv (AwaitResume text lang r) \<longleftrightarrow> text \<noteq> []"
| "task_inv (AwaitFirst text lang j) \<longleftrightarrow> text \<noteq> []"
| "task_inv _ \<longleftrightarrow> True"

definition tasks_inv :: "state \<Rightarrow> bool" where
  "tasks_inv s \<longleftrightarrow> (\<forall>t < length (tasks s). task_inv (tasks s ! t))"

definition all_inv :: "state \<Rightarrow> bool" where
  "all_inv s \<longleftrightarrow> data_inv s \<and> tasks_inv s"

text \<open>A rejected task carries the error of the audio context constructor.\<close>

definition rej_ok :: "platform \<Rightarrow> task \<Rightarrow> bool" where
  "rej_ok pf tk \<longleftrightarrow> (\<forall>e. tk = TRejected e \<longrightarrow> newAudioContext pf = Inl e)"

definition tasks_rej :: "platform \<Rightarrow> state \<Rightarrow> bool" where
  "tasks_rej pf s \<longleftrightarrow> (\<forall>t < length (tasks s). rej_ok pf (tasks s ! t))"

subsection \<open>Invocations and deletions\<close>






subsection \<open>Concrete inputs\<close>

text \<open>
  A platform with an API key whose audio context starts suspended, the text \<^verbatim>\<open>hi\<close>, the
  language \<^verbatim>\<open>es\<close>, and the payload \<^verbatim>\<open>AID/fw==\<close> (the bytes 00 80 FF 7F).
\<close>

abbreviation demo_platform :: platform where
  "demo_platform \<equiv> \<lparr> apiKey = Some [0x6B], newAudioContext = Inr Suspended \<rparr>"

abbreviation demo_text :: jsstring where "demo_text \<equiv> [0x68, 0x69]"

abbreviation demo_lang :: jsstring where "demo_lang \<equiv> [0x65, 0x73]"

abbreviation demo_audio :: jsstring where
  "demo_audio \<equiv> [0x41, 0x49, 0x44, 0x2F, 0x66, 0x77, 0x3D, 0x3D]"

section \<open>The decoder\<close>

subsection \<open>The two loops and the view as closed forms\<close>

lemma convert_loop_eq:
  "length cd = length d \<Longrightarrow> i \<le> length d \<Longrightarrow>
   convert_loop d i cd = take i cd @ map (\<lambda>w. real_of_int (sint w) / 32768) (drop i d)"
proof (induction d i cd rule: convert_loop.induct)
  case (1 d i cd)
  show ?case
  proof (cases "i < length d")
    case True
    have "convert_loop d i cd = convert_loop d (i + 1) (cd[i := real_of_int (sint (d ! i)) / 32768])"
      using True by (subst convert_loop.simps) simp
    also have "\<dots> = take (i + 1) (cd[i := real_of_int (sint (d ! i)) / 32768]) @ map (\<lambda>w. real_of_int (sint w) / 32768) (drop (i + 1) d)"
      using 1 True by simp
    also have "take (i + 1) (cd[i := real_of_int (sint (d ! i)) / 32768]) = take i cd @ [real_of_int (sint (d ! i)) / 32768]"
      using True 1(2) by (simp add: take_Suc_conv_app_nth)
    finally show ?thesis using True by (simp add: Cons_nth_drop_Suc[symmetric])
  next
    case False
    then show ?thesis using 1 by (subst convert_loop.simps) simp
  qed
qed

lemma decodeBase64_loop_eq:
  "length bs = length s \<Longrightarrow> i \<le> length s \<Longrightarrow>
   decodeBase64_loop s i bs = take i bs @ map ucast (drop i s)"
proof (induction s i bs rule: decodeBase64_loop.induct)
  case (1 s i bs)
  show ?case
  proof (cases "i < length s")
    case True
    have "decodeBase64_loop s i bs = decodeBase64_loop s (i + 1) (bs[i := ucast (s ! i)])"
      using True by (subst decodeBase64_loop.simps) simp
    also have "\<dots> = take (i + 1) (bs[i := ucast (s ! i)]) @ map ucast (drop (i + 1) s)"
      using 1 True by simp
    also have "take (i + 1) (bs[i := ucast (s ! i)]) = take i bs @ [ucast (s ! i)]"
      using True 1(2) by (simp add: take_Suc_conv_app_nth)
    finally show ?thesis using True by (simp add: Cons_nth_drop_Suc[symmetric])
  next
    case False
    then show ?thesis using 1 by (subst decodeBase64_loop.simps) simp
  qed
qed

lemma decodeBase64_eq:
  "decodeBase64 base64 = (case atob base64 of Inl e \<Rightarrow> Inl e | Inr b \<Rightarrow> Inr (map ucast b))"
  by (simp add: decodeBase64_def decodeBase64_loop_eq split: sum.splits)

lemma length_int16_view: "length (int16_view bs) = length bs div 2"
  by (induction bs rule: int16_view.induct) simp_all

lemma nth_int16_view:
  "2 * i + 1 < length bs \<Longrightarrow> int16_view bs ! i = word_cat (bs ! (2 * i + 1)) (bs ! (2 * i))"
proof (induction bs arbitrary: i rule: int16_view.induct)
  case (1 lo hi rest)
  then show ?case by (cases i) simp_all
qed simp_all

lemma length_trim_odd: "length (trim_odd bs) = 2 * (length bs div 2)"
  by (auto simp: trim_odd_def) presburger+

lemma trim_odd_take: "trim_odd bs = take (2 * (length bs div 2)) bs"
proof (cases "length bs mod 2 = 0")
  case True
  then have "2 * (length bs div 2) = length bs" by presburger
  then show ?thesis using True by (simp add: trim_odd_def)
next
  case False
  then have "2 * (length bs div 2) = length bs - 1" by presburger
  then show ?thesis using False by (simp add: trim_odd_def)
qed

lemma decode_pcm_short: "length bs < 2 \<Longrightarrow> decode_pcm bs = Inl NotSupportedError"
  by (simp add: decode_pcm_def Let_def createBuffer_def length_trim_odd)

lemma decode_pcm_long:
  assumes "2 \<le> length bs"
  shows "decode_pcm bs =
    Inr \<lparr> numberOfChannels = 1, sampleRate = 24000,
          channels = [map (\<lambda>w. real_of_int (sint w) / 32768) (int16_view (trim_odd bs))] \<rparr>"
proof -
  have pos: "0 < length bs div 2" using assms by simp
  have len: "length (trim_odd bs) div 2 = length bs div 2" by (simp add: length_trim_odd)
  show ?thesis using pos
    by (simp add: decode_pcm_def Let_def createBuffer_def getChannelData_def len
        convert_loop_eq length_int16_view)
qed

lemma uint_word_cat_bytes: "uint (word_cat (hi::8 word) (lo::8 word) :: 16 word) = uint lo + 256 * uint hi"
proof -
  have a: "uint lo < 256" "uint hi < 256" "0 \<le> uint lo" "0 \<le> uint hi"
    using uint_lt2p[of lo] uint_lt2p[of hi] by simp_all
  have "uint (word_cat hi lo :: 16 word) = (((uint hi mod 65536) * 256) mod 65536 + uint lo mod 65536) mod 65536"
    by (simp add: word_cat_eq push_bit_eq_mult uint_word_ariths unsigned_ucast_eq take_bit_eq_mod) 
  also have "\<dots> = uint hi * 256 + uint lo" using a by simp
  finally show ?thesis by simp
qed

lemma sint_word_cat_bytes: "sint (word_cat (hi::8 word) (lo::8 word) :: 16 word) = (let u = uint lo + 256 * uint hi in if u < 32768 then u else u - 65536)"
proof -
  define u where "u = uint lo + 256 * uint hi"
  have b: "0 \<le> u" "u < 65536"
    using uint_lt2p[of lo] uint_lt2p[of hi] uint_ge_0[of lo] uint_ge_0[of hi] by (simp_all add: u_def)
  let ?w = "word_cat hi lo :: 16 word"
  have "sint ?w = signed_take_bit 15 (uint ?w)" by (simp add: sint_uint)
  also have "\<dots> = (u + 32768) mod 65536 - 32768"
    by (simp add: uint_word_cat_bytes u_def signed_take_bit_eq_take_bit_shift take_bit_eq_mod)
  also have "\<dots> = (if u < 32768 then u else u - 65536)"
  proof (cases "u < 32768")
    case True
    then show ?thesis using b by simp
  next
    case False
    have "u + 32768 = (u - 32768) + 65536" by arith
    then have "(u + 32768) mod 65536 = (u - 32768) mod 65536" by (simp only: mod_add_self2)
    also have "\<dots> = u - 32768" using False b by simp
    finally show ?thesis using False by simp
  qed
  finally show ?thesis by (simp add: u_def Let_def)
qed


lemma sample_range:
  "- 1 \<le> real_of_int (sint (w :: 16 word)) / 32768 \<and> real_of_int (sint w) / 32768 \<le> 1"
proof -
  define x where "x = real_of_int (sint w)"
  have "- 32768 \<le> sint w" "sint w < 32768"
    using sint_ge[of w] sint_lt[of w] by simp_all
  then have "- 32768 \<le> x" "x < 32768"
    unfolding x_def by linarith+
  then have "- 1 \<le> x / 32768 \<and> x / 32768 \<le> 1" by simp
  then show ?thesis unfolding x_def .
qed

lemma sample_value:
  "real_of_int (sint (word_cat (hi::8 word) (lo::8 word) :: 16 word)) / 32768 =
   real_of_int (let u = uint lo + 256 * uint hi in if u < 32768 then u else u - 65536) / 32768"
  by (simp only: sint_word_cat_bytes)

subsection \<open>The samples\<close>

lemma atob_sample: "atob [0x41, 0x49, 0x44, 0x2F, 0x66, 0x77, 0x3D, 0x3D] = Inr [0x00, 0x80, 0xFF, 0x7F]"
  by (simp add: atob_def strip_padding_def isAsciiWhitespace_def b64_index_def Let_def)

lemma decodeBase64_sample:
  "decodeBase64 [0x41, 0x49, 0x44, 0x2F, 0x66, 0x77, 0x3D, 0x3D] = Inr [0x00, 0x80, 0xFF, 0x7F]"
  by (simp add: decodeBase64_eq atob_sample)

lemma decode_pcm_sample:
  "decode_pcm [0x00, 0x80, 0xFF, 0x7F] =
     Inr \<lparr> numberOfChannels = 1, sampleRate = 24000, channels = [[- 1, 32767 / 32768]] \<rparr>"
  by (simp add: decode_pcm_long trim_odd_def word_cat_eq)

lemma decode_payload_sample:
  "decode_payload [0x41, 0x49, 0x44, 0x2F, 0x66, 0x77, 0x3D, 0x3D] =
     Inr \<lparr> numberOfChannels = 1, sampleRate = 24000, channels = [[- 1, 32767 / 32768]] \<rparr>"
  by (simp add: decode_payload_def decodeBase64_sample decode_pcm_sample)

lemma atob_one_byte: "atob [0x41, 0x41, 0x3D, 0x3D] = Inr [0x00]"
  by (simp add: atob_def strip_padding_def isAsciiWhitespace_def b64_index_def Let_def)

lemma decodeBase64_one_byte: "decodeBase64 [0x41, 0x41, 0x3D, 0x3D] = Inr [0x00]"
  by (simp add: decodeBase64_eq atob_one_byte)

text \<open>
  Claim C5. Sample \<open>i\<close> of a decoded buffer is the signed 16-bit little-endian
  integer made of bytes \<open>2i\<close> (low) and \<open>2i+1\<close> (high) of the payload, divided by
  32768, where the payload is the bytes that \<^verbatim>\<open>decodeBase64\<close> gives. The base64 string \<^verbatim>\<open>AID/fw==\<close> decodes to the bytes 00 80 FF 7F, and these to
  the two samples \<open>-1\<close> and \<open>32767/32768\<close>.
\<close>

theorem decode_int16_le_samples:
  "(\<forall>bytes0 b i. decode_pcm bytes0 = Inr b \<longrightarrow> i < length bytes0 div 2 \<longrightarrow>
      getChannelData b 0 ! i =
        real_of_int (let u = uint (bytes0 ! (2 * i)) + 256 * uint (bytes0 ! (2 * i + 1))
                     in if u < 32768 then u else u - 65536) / 32768)
   \<and> (\<forall>base64Audio b. decode_payload base64Audio = Inr b \<longrightarrow>
        (\<exists>bytes0. decodeBase64 base64Audio = Inr bytes0 \<and> decode_pcm bytes0 = Inr b))
   \<and> decodeBase64 [0x41, 0x49, 0x44, 0x2F, 0x66, 0x77, 0x3D, 0x3D] = Inr [0x00, 0x80, 0xFF, 0x7F]
   \<and> decode_pcm [0x00, 0x80, 0xFF, 0x7F] =
       Inr \<lparr> numberOfChannels = 1, sampleRate = 24000, channels = [[- 1, 32767 / 32768]] \<rparr>
   \<and> decode_payload [0x41, 0x49, 0x44, 0x2F, 0x66, 0x77, 0x3D, 0x3D] =
       Inr \<lparr> numberOfChannels = 1, sampleRate = 24000, channels = [[- 1, 32767 / 32768]] \<rparr>"
proof (intro conjI allI impI)
  fix bytes0 b and i :: nat
  assume d: "decode_pcm bytes0 = Inr b" and i: "i < length bytes0 div 2"
  have two: "2 \<le> length bytes0" using i by simp
  have idx: "2 * i + 1 < 2 * (length bytes0 div 2)" using i by simp
  have idx': "2 * i + 1 < length (trim_odd bytes0)" "2 * i < 2 * (length bytes0 div 2)"
    using idx by (simp_all add: length_trim_odd)
  have b: "getChannelData b 0 = map (\<lambda>w. real_of_int (sint w) / 32768) (int16_view (trim_odd bytes0))"
    using d by (auto simp: decode_pcm_long[OF two] getChannelData_def)
  have "getChannelData b 0 ! i = real_of_int (sint (int16_view (trim_odd bytes0) ! i)) / 32768"
    unfolding b using i by (simp only: nth_map length_int16_view length_trim_odd nonzero_mult_div_cancel_left)
  also have "int16_view (trim_odd bytes0) ! i =
      word_cat (trim_odd bytes0 ! (2 * i + 1)) (trim_odd bytes0 ! (2 * i))"
    by (rule nth_int16_view[OF idx'(1)])
  also have "trim_odd bytes0 ! (2 * i + 1) = bytes0 ! (2 * i + 1)"
    unfolding trim_odd_take using idx by (rule nth_take)
  also have "trim_odd bytes0 ! (2 * i) = bytes0 ! (2 * i)"
    unfolding trim_odd_take using idx'(2) by (rule nth_take)
  finally show "getChannelData b 0 ! i =
        real_of_int (let u = uint (bytes0 ! (2 * i)) + 256 * uint (bytes0 ! (2 * i + 1))
                     in if u < 32768 then u else u - 65536) / 32768"
    by (simp only: sample_value)
next
  fix base64Audio b
  assume "decode_payload base64Audio = Inr b"
  then show "\<exists>bytes0. decodeBase64 base64Audio = Inr bytes0 \<and> decode_pcm bytes0 = Inr b"
    by (auto simp: decode_payload_def split: sum.splits)
next
  show "decodeBase64 [0x41, 0x49, 0x44, 0x2F, 0x66, 0x77, 0x3D, 0x3D] = Inr [0x00, 0x80, 0xFF, 0x7F]"
    by (rule decodeBase64_sample)
next
  show "decode_pcm [0x00, 0x80, 0xFF, 0x7F] =
       Inr \<lparr> numberOfChannels = 1, sampleRate = 24000, channels = [[- 1, 32767 / 32768]] \<rparr>"
    by (rule decode_pcm_sample)
next
  show "decode_payload [0x41, 0x49, 0x44, 0x2F, 0x66, 0x77, 0x3D, 0x3D] =
       Inr \<lparr> numberOfChannels = 1, sampleRate = 24000, channels = [[- 1, 32767 / 32768]] \<rparr>"
    by (rule decode_payload_sample)
qed

theorem decode_int16_le_samples_witness:
  "decode_pcm [0x00, 0x80, 0xFF, 0x7F] =
     Inr \<lparr> numberOfChannels = 1, sampleRate = 24000, channels = [[- 1, 32767 / 32768]] \<rparr>
   \<and> (1 :: nat) < length [0x00, 0x80, 0xFF, 0x7F :: byte] div 2
   \<and> getChannelData \<lparr> numberOfChannels = 1, sampleRate = 24000, channels = [[- 1, 32767 / 32768]] \<rparr> 0 ! 1
       = real_of_int (255 + 256 * 127) / 32768"
proof -
  let ?bs = "[0x00, 0x80, 0xFF, 0x7F] :: byte list"
  let ?b = "\<lparr> numberOfChannels = 1, sampleRate = 24000, channels = [[- 1, 32767 / 32768 :: real]] \<rparr>"
  have d: "decode_pcm ?bs = Inr ?b" using decode_int16_le_samples by blast
  have i: "(1 :: nat) < length ?bs div 2" by simp
  have "getChannelData ?b 0 ! 1 =
        real_of_int (let u = uint (?bs ! (2 * 1)) + 256 * uint (?bs ! (2 * 1 + 1))
                     in if u < 32768 then u else u - 65536) / 32768"
    using decode_int16_le_samples d i by blast
  then show ?thesis using d i by (simp add: getChannelData_def)
qed

text \<open>
  Claim C6, as amended. A payload of at least two bytes decodes whatever its parity:
  the number of samples is half the number of bytes, rounded down, and the buffer is the
  one of the even prefix, so an odd last byte is dropped. A payload of fewer than two
  bytes has no frame, and \<^verbatim>\<open>createBuffer\<close> refuses a buffer of no frames.
\<close>

theorem decode_pcm_parity:
  "(2 \<le> length bytes0 \<longrightarrow>
      (\<exists>b. decode_pcm bytes0 = Inr b
           \<and> length (getChannelData b 0) = length bytes0 div 2
           \<and> decode_pcm (take (2 * (length bytes0 div 2)) bytes0) = Inr b))
   \<and> (length bytes0 < 2 \<longrightarrow> decode_pcm bytes0 = Inl NotSupportedError)"
proof (intro conjI impI)
  assume two: "2 \<le> length bytes0"
  let ?ev = "take (2 * (length bytes0 div 2)) bytes0"
  have len: "length ?ev = 2 * (length bytes0 div 2)" by simp
  have two': "2 \<le> length ?ev" using two by simp
  have "trim_odd ?ev = ?ev" by (simp add: trim_odd_def)
  then have same: "trim_odd ?ev = trim_odd bytes0" by (simp add: trim_odd_take)
  show "\<exists>b. decode_pcm bytes0 = Inr b
           \<and> length (getChannelData b 0) = length bytes0 div 2
           \<and> decode_pcm ?ev = Inr b"
    by (simp add: decode_pcm_long[OF two] decode_pcm_long[OF two'] same getChannelData_def
        length_int16_view length_trim_odd)
next
  assume "length bytes0 < 2"
  then show "decode_pcm bytes0 = Inl NotSupportedError" by (rule decode_pcm_short)
qed

theorem decode_pcm_parity_witness:
  "2 \<le> length [0x00, 0x80, 0xFF :: byte]
   \<and> (\<exists>b. decode_pcm [0x00, 0x80, 0xFF] = Inr b
           \<and> length (getChannelData b 0) = 1
           \<and> decode_pcm [0x00, 0x80] = Inr b)
   \<and> length [0xFF :: byte] < 2 \<and> decode_pcm [0xFF] = Inl NotSupportedError"
  using decode_pcm_parity[of "[0x00, 0x80, 0xFF]"] decode_pcm_parity[of "[0xFF]"] by simp

text \<open>
  The payload of the single byte 00 (base64 \<^verbatim>\<open>AA==\<close>) does not decode: the claim C6 as
  stated, for every payload, fails there.
\<close>

theorem decode_single_byte_fails:
  "decode_pcm [0x00] = Inl NotSupportedError
   \<and> decodeBase64 [0x41, 0x41, 0x3D, 0x3D] = Inr [0x00]
   \<and> decode_payload [0x41, 0x41, 0x3D, 0x3D] = Inl NotSupportedError"
  by (simp add: decode_pcm_short decode_payload_def decodeBase64_one_byte)

lemma decode_payload_buffer:
  assumes "decode_payload base64Audio = Inr b"
  shows "numberOfChannels b = 1 \<and> sampleRate b = 24000 \<and> length (channels b) = 1
         \<and> (\<forall>x \<in> set (getChannelData b 0). - 1 \<le> x \<and> x \<le> 1)"
proof -
  from assms obtain bs where bs: "decode_pcm bs = Inr b"
    by (auto simp: decode_payload_def split: sum.splits)
  have two: "2 \<le> length bs"
  proof (rule ccontr)
    assume "\<not> 2 \<le> length bs"
    then have "decode_pcm bs = Inl NotSupportedError" by (simp add: decode_pcm_short)
    with bs show False by simp
  qed
  have b: "b = \<lparr> numberOfChannels = 1, sampleRate = 24000,
          channels = [map (\<lambda>w. real_of_int (sint w) / 32768) (int16_view (trim_odd bs))] \<rparr>"
    using bs decode_pcm_long[OF two] by simp
  have "\<forall>x \<in> set (getChannelData b 0). - 1 \<le> x \<and> x \<le> 1"
    unfolding b getChannelData_def using sample_range by (auto simp del: of_int_sint)
  then show ?thesis by (simp add: b)
qed

text \<open>
  Claim C7. A buffer that \<^verbatim>\<open>fetchAndDecodeTTS\<close> returns has one channel, the rate
  24000 Hz, and every sample in the closed range from \<open>-1\<close> to \<open>1\<close>.
\<close>

theorem decoded_buffer_format:
  assumes "fetchAndDecodeTTS_resume resp s = (Fulfilled (Some r), s')"
  shows "r < length (heap s') \<and> numberOfChannels (heap s' ! r) = 1
         \<and> sampleRate (heap s' ! r) = 24000 \<and> length (channels (heap s' ! r)) = 1
         \<and> (\<forall>x \<in> set (getChannelData (heap s' ! r) 0). - 1 \<le> x \<and> x \<le> 1)"
proof -
  from assms obtain base64Audio b where
    d: "decode_payload base64Audio = Inr b" and r: "r = length (heap s)"
    and s': "s' = s \<lparr> heap := heap s @ [b] \<rparr>"
    by (auto simp: fetchAndDecodeTTS_resume_def decode_response_def
        split: response.splits option.splits if_splits sum.splits)
  have "heap s' ! r = b" "r < length (heap s')" by (simp_all add: r s')
  then show ?thesis using decode_payload_buffer[OF d] by simp
qed

theorem decoded_buffer_format_witness:
  "fst (fetchAndDecodeTTS_resume (Reply (Some [0x41, 0x49, 0x44, 0x2F, 0x66, 0x77, 0x3D, 0x3D])) init)
     = Fulfilled (Some 0)
   \<and> numberOfChannels (heap (snd (fetchAndDecodeTTS_resume
          (Reply (Some [0x41, 0x49, 0x44, 0x2F, 0x66, 0x77, 0x3D, 0x3D])) init)) ! 0) = 1
   \<and> sampleRate (heap (snd (fetchAndDecodeTTS_resume
          (Reply (Some [0x41, 0x49, 0x44, 0x2F, 0x66, 0x77, 0x3D, 0x3D])) init)) ! 0) = 24000"
proof -
  let ?r = "fetchAndDecodeTTS_resume (Reply (Some [0x41, 0x49, 0x44, 0x2F, 0x66, 0x77, 0x3D, 0x3D])) init"
  have f: "fst ?r = Fulfilled (Some 0)"
    by (simp add: fetchAndDecodeTTS_resume_def decode_response_def falsy_def
        decode_payload_sample init_def)
  then have e: "?r = (Fulfilled (Some 0), snd ?r)"
    by (metis prod.collapse)
  show ?thesis using f decoded_buffer_format[OF e] by blast
qed

section \<open>The event loop\<close>

subsection \<open>Reachable states\<close>

lemma run_append:
  "run pf (es1 @ es2) s = (case run pf es1 s of None \<Rightarrow> None | Some s1 \<Rightarrow> run pf es2 s1)"
  by (induction es1 arbitrary: s) (auto split: option.splits)

lemma reachable_init: "reachable pf init"
  unfolding reachable_def by (rule exI[of _ "[]"]) simp

lemma reachable_step: "reachable pf s \<Longrightarrow> step pf e s = Some s' \<Longrightarrow> reachable pf s'"
  unfolding reachable_def
proof (elim exE)
  fix es assume "step pf e s = Some s'" "run pf es init = Some s"
  then have "run pf (es @ [e]) init = Some s'" by (simp add: run_append)
  then show "\<exists>es. run pf es init = Some s'" by blast
qed

lemma reachable_run: "reachable pf s \<Longrightarrow> run pf es s = Some s' \<Longrightarrow> reachable pf s'"
proof (induction es arbitrary: s)
  case Nil
  then show ?case by simp
next
  case (Cons e es)
  then show ?case by (auto split: option.splits dest: reachable_step)
qed

lemma reachable_run_init: "run pf es init = Some s \<Longrightarrow> reachable pf s"
  unfolding reachable_def by blast

lemma reachable_induct [consumes 1, case_names init step]:
  assumes "reachable pf s"
    and "P init"
    and "\<And>s e s'. reachable pf s \<Longrightarrow> P s \<Longrightarrow> step pf e s = Some s' \<Longrightarrow> P s'"
  shows "P s"
proof -
  from assms(1) obtain es where "run pf es init = Some s" unfolding reachable_def by blast
  then show ?thesis
  proof (induction es arbitrary: s rule: rev_induct)
    case Nil
    then show ?case using assms(2) by simp
  next
    case (snoc e es)
    from snoc.prems obtain s1 where s1: "run pf es init = Some s1" and st: "step pf e s1 = Some s"
      by (auto simp: run_append split: option.splits)
    have "reachable pf s1" using s1 unfolding reachable_def by blast
    then show ?case using assms(3) snoc.IH[OF s1] st by blast
  qed
qed

subsection \<open>What the functions change\<close>

lemma getAudioContext_effect:
  "getAudioContext pf s = Inr s' \<Longrightarrow> \<exists>a. s' = s \<lparr> audioCtx := a \<rparr>"
  by (auto simp: getAudioContext_def split: option.splits sum.splits intro: exI[of _ "audioCtx s"])

lemma getAudioContext_Inl: "getAudioContext pf s = Inl e \<Longrightarrow> newAudioContext pf = Inl e"
  by (auto simp: getAudioContext_def split: option.splits sum.splits)

lemma fetchAndDecodeTTS_call_effect:
  "\<exists>p a rq. fetchAndDecodeTTS_call pf text lang s = (p, s \<lparr> audioCtx := a, requests := rq \<rparr>)"
proof (cases "falsy text \<or> falsy (trim text)")
  case True
  then have "fetchAndDecodeTTS_call pf text lang s = (Fulfilled None, s \<lparr> audioCtx := audioCtx s, requests := requests s \<rparr>)"
    by (simp add: fetchAndDecodeTTS_call_def)
  then show ?thesis by blast
next
  case False
  show ?thesis
  proof (cases "getAiClient pf")
    case (Inl e)
    then have "fetchAndDecodeTTS_call pf text lang s = (Rejected e, s \<lparr> audioCtx := audioCtx s, requests := requests s \<rparr>)"
      using False by (simp add: fetchAndDecodeTTS_call_def)
    then show ?thesis by blast
  next
    case (Inr u)
    show ?thesis
    proof (cases "getAudioContext pf s")
      case (Inl e)
      then have "fetchAndDecodeTTS_call pf text lang s = (Rejected e, s \<lparr> audioCtx := audioCtx s, requests := requests s \<rparr>)"
        using False Inr by (simp add: fetchAndDecodeTTS_call_def)
      then show ?thesis by blast
    next
      case (Inr s')
      then obtain a where "s' = s \<lparr> audioCtx := a \<rparr>" using getAudioContext_effect by blast
      then have "fetchAndDecodeTTS_call pf text lang s = (Pending, s \<lparr> audioCtx := a, requests := requests s @ [text] \<rparr>)"
        using False Inr \<open>getAiClient pf = Inr u\<close> by (simp add: fetchAndDecodeTTS_call_def)
      then show ?thesis by blast
    qed
  qed
qed

lemma getTTSBuffer_hit:
  "ttsCache s (cacheKey lang text) = Some j \<Longrightarrow> getTTSBuffer pf text lang s = (j, s)"
  by (simp add: getTTSBuffer_def)

lemma getTTSBuffer_miss:
  assumes "ttsCache s (cacheKey lang text) = None"
  shows "\<exists>p a rq. getTTSBuffer pf text lang s =
     (length (jobs s),
      s \<lparr> audioCtx := a, requests := rq,
          jobs := jobs s @ [\<lparr> job_key = cacheKey lang text, job_text = text, job_lang = lang,
                               pipeline = p, entry = Pending \<rparr>],
          ttsCache := (ttsCache s)(cacheKey lang text \<mapsto> length (jobs s)) \<rparr>)"
proof -
  obtain p a rq where "fetchAndDecodeTTS_call pf text lang s = (p, s \<lparr> audioCtx := a, requests := rq \<rparr>)"
    using fetchAndDecodeTTS_call_effect by blast
  then have "getTTSBuffer pf text lang s =
     (length (jobs s),
      s \<lparr> audioCtx := a, requests := rq,
          jobs := jobs s @ [\<lparr> job_key = cacheKey lang text, job_text = text, job_lang = lang,
                               pipeline = p, entry = Pending \<rparr>],
          ttsCache := (ttsCache s)(cacheKey lang text \<mapsto> length (jobs s)) \<rparr>)"
    using assms by (simp add: getTTSBuffer_def Let_def)
  then show ?thesis by blast
qed

lemma getTTSBuffer_tasks: "tasks (snd (getTTSBuffer pf text lang s)) = tasks s"
proof (cases "ttsCache s (cacheKey lang text)")
  case None
  from getTTSBuffer_miss[OF None, of pf] show ?thesis by auto
next
  case (Some j)
  then show ?thesis by (simp add: getTTSBuffer_hit)
qed

lemma fetchAndDecodeTTS_resume_effect:
  "\<exists>p h. fetchAndDecodeTTS_resume resp s = (p, s \<lparr> heap := h \<rparr>) \<and> p \<noteq> Pending"
proof -
  have "fetchAndDecodeTTS_resume resp s = (fst (fetchAndDecodeTTS_resume resp s), s \<lparr> heap := heap (snd (fetchAndDecodeTTS_resume resp s)) \<rparr>)
        \<and> fst (fetchAndDecodeTTS_resume resp s) \<noteq> Pending"
    by (simp add: fetchAndDecodeTTS_resume_def split: sum.splits)
  then show ?thesis by blast
qed

lemma settle_effect:
  assumes "j < length (jobs s)"
  shows "\<exists>p v h c ev. settle j resp s =
           s \<lparr> heap := h, ttsCache := c, evictions := ev,
               jobs := (jobs s)[j := (jobs s ! j) \<lparr> pipeline := p, entry := Fulfilled v \<rparr>] \<rparr>
         \<and> ((p = Fulfilled v \<and> c = ttsCache s \<and> ev = evictions s)
            \<or> ((\<exists>e. p = Rejected e) \<and> v = None \<and> h = heap s
                \<and> c = (ttsCache s)(job_key (jobs s ! j) := None)
                \<and> ev = evictions s @ [(job_key (jobs s ! j), ByHandler j)]))"
proof -
  define jb where "jb = jobs s ! j"
  obtain p s1 where ps: "(case pipeline jb of
                       Pending \<Rightarrow> fetchAndDecodeTTS_resume resp s
                     | Fulfilled v \<Rightarrow> (Fulfilled v, s)
                     | Rejected e \<Rightarrow> (Rejected e, s)) = (p, s1)"
    by (cases "case pipeline jb of
                       Pending \<Rightarrow> fetchAndDecodeTTS_resume resp s
                     | Fulfilled v \<Rightarrow> (Fulfilled v, s)
                     | Rejected e \<Rightarrow> (Rejected e, s)") blast
  have "\<exists>h. s1 = s \<lparr> heap := h \<rparr> \<and> p \<noteq> Pending"
  proof (cases "pipeline jb")
    case Pending
    then show ?thesis using ps fetchAndDecodeTTS_resume_effect[of resp s] by auto
  next
    case (Fulfilled v)
    then have "s1 = s \<lparr> heap := heap s \<rparr> \<and> p \<noteq> Pending" using ps by auto
    then show ?thesis by blast
  next
    case (Rejected e)
    then have "s1 = s \<lparr> heap := heap s \<rparr> \<and> p \<noteq> Pending" using ps by auto
    then show ?thesis by blast
  qed
  then obtain h where s1: "s1 = s \<lparr> heap := h \<rparr>" and np: "p \<noteq> Pending" by blast
  have st: "settle j resp s =
     (case p of
           Pending \<Rightarrow> s1
         | Fulfilled v \<Rightarrow>
             s1 \<lparr> jobs := (jobs s1)[j := jb \<lparr> pipeline := p, entry := Fulfilled v \<rparr>] \<rparr>
         | Rejected err \<Rightarrow>
             (let (v, s2) = catch_handler j (job_key jb) err s1
              in s2 \<lparr> jobs := (jobs s2)[j := jb \<lparr> pipeline := p, entry := Fulfilled v \<rparr>] \<rparr>))"
    unfolding settle_def Let_def jb_def[symmetric] ps by simp
  show ?thesis
  proof (cases p)
    case Pending
    then show ?thesis using np by simp
  next
    case (Fulfilled v)
    then have "settle j resp s =
           s \<lparr> heap := h, ttsCache := ttsCache s, evictions := evictions s,
               jobs := (jobs s)[j := (jobs s ! j) \<lparr> pipeline := p, entry := Fulfilled v \<rparr>] \<rparr>"
      using st s1 by (simp add: jb_def)
    then show ?thesis using Fulfilled by blast
  next
    case (Rejected e)
    have hs1: "heap s1 = h" using s1 by simp
    have "heap s1 = heap s"
    proof (cases "pipeline jb")
      case Pending
      then show ?thesis using ps \<open>p = Rejected e\<close>
        by (auto simp: fetchAndDecodeTTS_resume_def split: sum.splits)
    next
      case (Fulfilled v)
      then show ?thesis using ps \<open>p = Rejected e\<close> by auto
    next
      case (Rejected e')
      then show ?thesis using ps by auto
    qed
    then have hh: "h = heap s" using hs1 by simp
    have "settle j resp s =
           s \<lparr> heap := h, ttsCache := (ttsCache s)(job_key (jobs s ! j) := None),
               evictions := evictions s @ [(job_key (jobs s ! j), ByHandler j)],
               jobs := (jobs s)[j := (jobs s ! j) \<lparr> pipeline := p, entry := Fulfilled None \<rparr>] \<rparr>"
      using st s1 Rejected by (simp add: jb_def catch_handler_def)
    then show ?thesis using Rejected hh by blast
  qed
qed

lemma settle_tasks: "j < length (jobs s) \<Longrightarrow> tasks (settle j resp s) = tasks s"
  using settle_effect[of j s resp] by auto

lemma prefetch_miss:
  assumes "text \<noteq> []" "ttsCache s (cacheKey lang text) = None"
  shows "\<exists>p a rq. prefetchTTS pf text lang s =
      s \<lparr> audioCtx := a, requests := rq,
          jobs := jobs s @ [\<lparr> job_key = cacheKey lang text, job_text = text, job_lang = lang,
                               pipeline = p, entry = Pending \<rparr>],
          ttsCache := (ttsCache s)(cacheKey lang text \<mapsto> length (jobs s)) \<rparr>"
proof -
  from getTTSBuffer_miss[OF assms(2), of pf] obtain p a rq where
    "getTTSBuffer pf text lang s =
     (length (jobs s),
      s \<lparr> audioCtx := a, requests := rq,
          jobs := jobs s @ [\<lparr> job_key = cacheKey lang text, job_text = text, job_lang = lang,
                               pipeline = p, entry = Pending \<rparr>],
          ttsCache := (ttsCache s)(cacheKey lang text \<mapsto> length (jobs s)) \<rparr>)"
    by blast
  then have "prefetchTTS pf text lang s =
      s \<lparr> audioCtx := a, requests := rq,
          jobs := jobs s @ [\<lparr> job_key = cacheKey lang text, job_text = text, job_lang = lang,
                               pipeline = p, entry = Pending \<rparr>],
          ttsCache := (ttsCache s)(cacheKey lang text \<mapsto> length (jobs s)) \<rparr>"
    using assms(1) by (simp add: prefetchTTS_def falsy_def)
  then show ?thesis by blast
qed

subsection \<open>The invariants hold in every reachable state\<close>

lemma data_inv_frame:
  "ttsCache s' = ttsCache s \<Longrightarrow> jobs s' = jobs s \<Longrightarrow> obs s' = obs s \<Longrightarrow>
   evictions s' = evictions s \<Longrightarrow> data_inv s' = data_inv s"
  by (simp add: data_inv_def cache_inv_def jobs_inv_def obs_inv_def evict_inv_def
      handler_evictions_def)

lemma data_inv_init: "data_inv init"
  by (simp add: data_inv_def cache_inv_def jobs_inv_def obs_inv_def evict_inv_def
      handler_evictions_def init_def)

lemma cache_inv_insert:
  assumes "cache_inv s"
  shows "cache_inv (s \<lparr> audioCtx := a, requests := rq,
            jobs := jobs s @ [\<lparr> job_key = k, job_text = text, job_lang = lang,
                               pipeline = p, entry = Pending \<rparr>],
            ttsCache := (ttsCache s)(k \<mapsto> length (jobs s)) \<rparr>)"
  using assms by (auto simp: cache_inv_def nth_append less_Suc_eq)

lemma jobs_inv_insert:
  assumes "jobs_inv s" "text \<noteq> []"
  shows "jobs_inv (s \<lparr> audioCtx := a, requests := rq,
            jobs := jobs s @ [\<lparr> job_key = cacheKey lang text, job_text = text, job_lang = lang,
                               pipeline = p, entry = Pending \<rparr>],
            ttsCache := c \<rparr>)"
  using assms by (auto simp: jobs_inv_def job_inv_def nth_append less_Suc_eq)

lemma obs_inv_insert:
  assumes "obs_inv s"
  shows "obs_inv (s \<lparr> audioCtx := a, requests := rq, jobs := jobs s @ [jb], ttsCache := c \<rparr>)"
  using assms by (fastforce simp: obs_inv_def nth_append intro: less_SucI)

lemma evict_inv_insert:
  assumes "evict_inv s"
  shows "evict_inv (s \<lparr> audioCtx := a, requests := rq,
            jobs := jobs s @ [\<lparr> job_key = k, job_text = text, job_lang = lang,
                               pipeline = p, entry = Pending \<rparr>],
            ttsCache := c \<rparr>)"
  using assms
  by (auto simp: evict_inv_def handler_evictions_def failed_def nth_append less_Suc_eq)

lemma getTTSBuffer_inv:
  assumes "data_inv s" "text \<noteq> []" "getTTSBuffer pf text lang s = (j, s')"
  shows "data_inv s' \<and> j < length (jobs s') \<and> tasks s' = tasks s"
proof (cases "ttsCache s (cacheKey lang text)")
  case None
  from getTTSBuffer_miss[OF None, of pf] assms(3) obtain p a rq where
    j: "j = length (jobs s)" and
    s': "s' = s \<lparr> audioCtx := a, requests := rq,
          jobs := jobs s @ [\<lparr> job_key = cacheKey lang text, job_text = text, job_lang = lang,
                               pipeline = p, entry = Pending \<rparr>],
          ttsCache := (ttsCache s)(cacheKey lang text \<mapsto> length (jobs s)) \<rparr>"
    by auto
  have "data_inv s'"
    unfolding data_inv_def s'
    using assms(1,2) cache_inv_insert jobs_inv_insert obs_inv_insert evict_inv_insert
    by (simp add: data_inv_def)
  then show ?thesis by (simp add: j s')
next
  case (Some j')
  then have "j = j'" "s' = s" using assms(3) by (simp_all add: getTTSBuffer_hit)
  then show ?thesis using assms(1) Some by (simp add: data_inv_def cache_inv_def)
qed

lemma count_list_append_single:
  "count_list (xs @ [x]) y = count_list xs y + (if x = y then 1 else 0)"
  by (induction xs) auto

lemma settle_inv:
  assumes inv: "data_inv s" and j: "j < length (jobs s)" and pend: "entry (jobs s ! j) = Pending"
  shows "data_inv (settle j resp s)"
proof -
  from settle_effect[OF j, of resp] obtain p v h c ev where
    st: "settle j resp s =
           s \<lparr> heap := h, ttsCache := c, evictions := ev,
               jobs := (jobs s)[j := (jobs s ! j) \<lparr> pipeline := p, entry := Fulfilled v \<rparr>] \<rparr>"
    and cases: "(p = Fulfilled v \<and> c = ttsCache s \<and> ev = evictions s)
            \<or> ((\<exists>e. p = Rejected e) \<and> v = None \<and> h = heap s
                \<and> c = (ttsCache s)(job_key (jobs s ! j) := None)
                \<and> ev = evictions s @ [(job_key (jobs s ! j), ByHandler j)])"
    by blast
  let ?s' = "settle j resp s"
  have jobs': "jobs ?s' = (jobs s)[j := (jobs s ! j) \<lparr> pipeline := p, entry := Fulfilled v \<rparr>]"
    and cache': "ttsCache ?s' = c" and ev': "evictions ?s' = ev" and obs': "obs ?s' = obs s"
    by (simp_all add: st)
  have keys: "job_key (jobs ?s' ! i) = job_key (jobs s ! i)" if "i < length (jobs s)" for i
    using that by (cases "i = j") (simp_all add: jobs')
  have len: "length (jobs ?s') = length (jobs s)" by (simp add: jobs')
  have c_sub: "\<And>k i. c k = Some i \<Longrightarrow> ttsCache s k = Some i"
    using cases by (auto split: if_splits)
  have "cache_inv ?s'"
    unfolding cache_inv_def cache' len
  proof (intro allI impI)
    fix k i assume "c k = Some i"
    then have "ttsCache s k = Some i" by (rule c_sub)
    then have "i < length (jobs s) \<and> job_key (jobs s ! i) = k"
      using inv by (simp add: data_inv_def cache_inv_def)
    then show "i < length (jobs s) \<and> job_key (jobs ?s' ! i) = k" using keys by simp
  qed
  moreover have "jobs_inv ?s'"
    unfolding jobs_inv_def len
  proof (intro allI impI)
    fix i assume i: "i < length (jobs s)"
    then have old: "job_inv (jobs s ! i)" using inv by (simp add: data_inv_def jobs_inv_def)
    show "job_inv (jobs ?s' ! i)"
    proof (cases "i = j")
      case True
      then show ?thesis using old cases i by (auto simp: jobs' job_inv_def)
    next
      case False
      then show ?thesis using old i by (simp add: jobs')
    qed
  qed
  moreover have "obs_inv ?s'"
    unfolding obs_inv_def obs' len
  proof (intro allI impI)
    fix t i w assume "(t, i, w) \<in> set (obs s)"
    then have a: "i < length (jobs s)" "entry (jobs s ! i) = Fulfilled w"
      using inv by (auto simp: data_inv_def obs_inv_def)
    then have "i \<noteq> j" using pend by auto
    then show "i < length (jobs s) \<and> entry (jobs ?s' ! i) = Fulfilled w"
      using a by (simp add: jobs')
  qed
  moreover have "evict_inv ?s'"
  proof -
    have old1: "\<And>i. handler_evictions i s = (if i < length (jobs s) \<and> failed (jobs s ! i) then 1 else 0)"
      and old2: "\<And>k i. (k, ByHandler i) \<in> set (evictions s) \<Longrightarrow> i < length (jobs s) \<and> k = job_key (jobs s ! i)"
      using inv by (auto simp: data_inv_def evict_inv_def)
    have notf: "\<not> failed (jobs s ! j)" using pend by (simp add: failed_def)
    have other: "\<And>i. i \<noteq> j \<Longrightarrow> jobs ?s' ! i = jobs s ! i" by (simp add: jobs')
    have new: "failed (jobs ?s' ! j) \<longleftrightarrow> (\<exists>e. p = Rejected e)"
      using j by (simp add: jobs' failed_def)
    have a: "handler_evictions i ?s' = (if i < length (jobs ?s') \<and> failed (jobs ?s' ! i) then 1 else 0)" for i
    proof (cases "i = j")
      case True
      show ?thesis using cases
      proof
        assume "p = Fulfilled v \<and> c = ttsCache s \<and> ev = evictions s"
        then show ?thesis using True old1[of j] notf new j
          by (simp add: handler_evictions_def ev' len)
      next
        assume "(\<exists>e. p = Rejected e) \<and> v = None \<and> h = heap s
                \<and> c = (ttsCache s)(job_key (jobs s ! j) := None)
                \<and> ev = evictions s @ [(job_key (jobs s ! j), ByHandler j)]"
        then show ?thesis using True old1[of j] notf new j
          by (simp add: handler_evictions_def ev' len count_list_append_single)
      qed
    next
      case False
      then have "handler_evictions i ?s' = handler_evictions i s"
        using cases by (auto simp: handler_evictions_def ev' count_list_append_single)
      then show ?thesis using False old1[of i] other[OF False] by (simp add: len)
    qed
    have b: "i < length (jobs ?s') \<and> k = job_key (jobs ?s' ! i)"
      if "(k, ByHandler i) \<in> set (evictions ?s')" for k i
    proof -
      from that cases have "(k, ByHandler i) \<in> set (evictions s) \<or> (i = j \<and> k = job_key (jobs s ! j))"
        by (auto simp: ev')
      then show ?thesis using old2 keys j by (auto simp: len)
    qed
    show ?thesis unfolding evict_inv_def using a b by blast
  qed
  ultimately show ?thesis by (simp add: data_inv_def)
qed

lemma delete_inv:
  assumes "data_inv s"
  shows "data_inv (s \<lparr> ttsCache := (ttsCache s)(k := None),
                       evictions := evictions s @ [(k, ByPlay t)] \<rparr>)"
  using assms
  by (auto simp: data_inv_def cache_inv_def jobs_inv_def obs_inv_def evict_inv_def
      handler_evictions_def count_list_append_single split: if_splits)

lemma obs_append_inv:
  assumes "data_inv s" "j < length (jobs s)" "entry (jobs s ! j) = Fulfilled v"
  shows "data_inv (s \<lparr> obs := obs s @ [(t, j, v)] \<rparr>)"
  using assms
  by (auto simp: data_inv_def cache_inv_def jobs_inv_def obs_inv_def evict_inv_def
      handler_evictions_def)

lemma all_inv_init: "all_inv init"
  using data_inv_init by (simp add: all_inv_def tasks_inv_def init_def)

lemma all_inv_frame:
  "all_inv s \<Longrightarrow> ttsCache s' = ttsCache s \<Longrightarrow> jobs s' = jobs s \<Longrightarrow> obs s' = obs s \<Longrightarrow>
   evictions s' = evictions s \<Longrightarrow> tasks s' = tasks s \<Longrightarrow> all_inv s'"
  using data_inv_frame[of s' s] by (simp add: all_inv_def tasks_inv_def)

lemma all_inv_data:
  "all_inv s \<Longrightarrow> data_inv s' \<Longrightarrow> tasks s' = tasks s \<Longrightarrow> all_inv s'"
  by (simp add: all_inv_def tasks_inv_def)

lemma all_inv_tasks_append:
  assumes "all_inv s" "task_inv tk"
  shows "all_inv (s \<lparr> tasks := tasks s @ [tk] \<rparr>)"
proof -
  have "data_inv (s \<lparr> tasks := tasks s @ [tk] \<rparr>)"
    using assms(1) data_inv_frame[of "s \<lparr> tasks := tasks s @ [tk] \<rparr>" s] by (simp add: all_inv_def)
  moreover have "tasks_inv (s \<lparr> tasks := tasks s @ [tk] \<rparr>)"
    using assms by (auto simp: all_inv_def tasks_inv_def nth_append less_Suc_eq)
  ultimately show ?thesis by (simp add: all_inv_def)
qed

lemma all_inv_tasks_update:
  assumes "all_inv s" "task_inv tk"
  shows "all_inv (s \<lparr> tasks := (tasks s)[t := tk] \<rparr>)"
proof -
  have "data_inv (s \<lparr> tasks := (tasks s)[t := tk] \<rparr>)"
    using assms(1) data_inv_frame[of "s \<lparr> tasks := (tasks s)[t := tk] \<rparr>" s] by (simp add: all_inv_def)
  moreover have "task_inv ((tasks s)[t := tk] ! i)" if "i < length (tasks s)" for i
    using that assms by (cases "i = t") (simp_all add: all_inv_def tasks_inv_def)
  then have "tasks_inv (s \<lparr> tasks := (tasks s)[t := tk] \<rparr>)"
    by (simp add: tasks_inv_def)
  ultimately show ?thesis by (simp add: all_inv_def)
qed

lemma all_inv_audioCtx: "all_inv s \<Longrightarrow> all_inv (s \<lparr> audioCtx := a \<rparr>)"
  by (erule all_inv_frame) simp_all

lemma playTTS_call_inv:
  assumes "all_inv s"
  shows "all_inv (playTTS_call pf text lang s)"
proof (cases "falsy text")
  case True
  then have e: "playTTS_call pf text lang s = s \<lparr> tasks := tasks s @ [TDone] \<rparr>"
    by (simp add: playTTS_call_def)
  show ?thesis unfolding e using assms by (rule all_inv_tasks_append) simp
next
  case False
  then have ne: "text \<noteq> []" by (simp add: falsy_def)
  show ?thesis
  proof (cases "getAudioContext pf s")
    case (Inl e)
    then have e: "playTTS_call pf text lang s = s \<lparr> tasks := tasks s @ [TRejected e] \<rparr>"
      using False by (simp add: playTTS_call_def resumeAudioContext_call_def)
    show ?thesis unfolding e using assms by (rule all_inv_tasks_append) simp
  next
    case (Inr s1)
    then obtain a where s1: "s1 = s \<lparr> audioCtx := a \<rparr>" using getAudioContext_effect by blast
    have e: "playTTS_call pf text lang s =
        s1 \<lparr> tasks := tasks s1 @ [AwaitResume text lang (audioCtx s1 = Some Suspended)] \<rparr>"
      using False Inr by (simp add: playTTS_call_def resumeAudioContext_call_def)
    have "all_inv s1" unfolding s1 using assms by (rule all_inv_audioCtx)
    then show ?thesis unfolding e by (rule all_inv_tasks_append) (simp add: ne)
  qed
qed

lemma prefetchTTS_inv:
  assumes "all_inv s"
  shows "all_inv (prefetchTTS pf text lang s)"
proof (cases "falsy text")
  case True
  then show ?thesis using assms by (simp add: prefetchTTS_def)
next
  case False
  then have ne: "text \<noteq> []" by (simp add: falsy_def)
  obtain j s' where g: "getTTSBuffer pf text lang s = (j, s')" by (cases "getTTSBuffer pf text lang s")
  have "data_inv s' \<and> j < length (jobs s') \<and> tasks s' = tasks s"
    using getTTSBuffer_inv[OF _ ne g] assms by (simp add: all_inv_def)
  then have "all_inv s'" using assms all_inv_data by blast
  then show ?thesis using False g by (simp add: prefetchTTS_def)
qed

lemma getTTSBuffer_all_inv:
  assumes "all_inv s" "text \<noteq> []" "getTTSBuffer pf text lang s = (j, s')"
  shows "all_inv s'"
proof -
  have "data_inv s' \<and> j < length (jobs s') \<and> tasks s' = tasks s"
    using getTTSBuffer_inv[OF _ assms(2,3)] assms(1) by (simp add: all_inv_def)
  then show ?thesis using assms(1) all_inv_data by blast
qed

lemma playTTS_resumed_inv:
  assumes "all_inv s" "text \<noteq> []"
  shows "all_inv (playTTS_resumed pf t text lang s)"
proof (cases "getAudioContext pf s")
  case (Inl e)
  then have e: "playTTS_resumed pf t text lang s = s \<lparr> tasks := (tasks s)[t := TRejected e] \<rparr>"
    by (simp add: playTTS_resumed_def)
  show ?thesis unfolding e using assms(1) by (rule all_inv_tasks_update) simp
next
  case (Inr s1)
  then obtain a where s1: "s1 = s \<lparr> audioCtx := a \<rparr>" using getAudioContext_effect by blast
  have i1: "all_inv s1" unfolding s1 using assms(1) by (rule all_inv_audioCtx)
  obtain j s2 where g: "getTTSBuffer pf text lang s1 = (j, s2)" by (cases "getTTSBuffer pf text lang s1")
  have i2: "all_inv s2" using i1 assms(2) g by (rule getTTSBuffer_all_inv)
  have e: "playTTS_resumed pf t text lang s = s2 \<lparr> tasks := (tasks s2)[t := AwaitFirst text lang j] \<rparr>"
    using Inr g by (simp add: playTTS_resumed_def)
  show ?thesis unfolding e using i2 by (rule all_inv_tasks_update) (simp add: assms(2))
qed

lemma playTTS_first_inv:
  assumes "all_inv s" "text \<noteq> []"
  shows "all_inv (playTTS_first pf t text lang buffer s)"
proof (cases buffer)
  case None
  let ?s1 = "s \<lparr> ttsCache := (ttsCache s)(cacheKey lang text := None),
                  evictions := evictions s @ [(cacheKey lang text, ByPlay t)] \<rparr>"
  have "data_inv ?s1" using assms(1) delete_inv by (simp add: all_inv_def)
  then have i1: "all_inv ?s1" using assms(1) by (simp add: all_inv_def tasks_inv_def)
  obtain j s2 where g: "getTTSBuffer pf text lang ?s1 = (j, s2)" by (cases "getTTSBuffer pf text lang ?s1")
  have i2: "all_inv s2" using i1 assms(2) g by (rule getTTSBuffer_all_inv)
  have e: "playTTS_first pf t text lang buffer s = s2 \<lparr> tasks := (tasks s2)[t := AwaitRetry text lang j] \<rparr>"
    using None g by (simp add: playTTS_first_def)
  show ?thesis unfolding e using i2 by (rule all_inv_tasks_update) simp
next
  case (Some b)
  let ?s1 = "s \<lparr> started := started s @ [b] \<rparr>"
  have e: "playTTS_first pf t text lang buffer s = ?s1 \<lparr> tasks := (tasks ?s1)[t := Playing b] \<rparr>"
    using Some by (simp add: playTTS_first_def playBuffer_def)
  have "all_inv ?s1" using assms(1) by (rule all_inv_frame) simp_all
  then show ?thesis unfolding e by (rule all_inv_tasks_update) simp
qed

lemma playTTS_retry_inv:
  assumes "all_inv s"
  shows "all_inv (playTTS_retry t buffer s)"
proof (cases buffer)
  case None
  then have e: "playTTS_retry t buffer s = s \<lparr> tasks := (tasks s)[t := TDone] \<rparr>"
    by (simp add: playTTS_retry_def)
  show ?thesis unfolding e using assms by (rule all_inv_tasks_update) simp
next
  case (Some b)
  let ?s1 = "s \<lparr> started := started s @ [b] \<rparr>"
  have e: "playTTS_retry t buffer s = ?s1 \<lparr> tasks := (tasks ?s1)[t := Playing b] \<rparr>"
    using Some by (simp add: playTTS_retry_def playBuffer_def)
  have "all_inv ?s1" using assms(1) by (rule all_inv_frame) simp_all
  then show ?thesis unfolding e by (rule all_inv_tasks_update) simp
qed

lemma wake_inv:
  assumes "all_inv s" "t < length (tasks s)" "wake pf t s = Some s'"
  shows "all_inv s'"
proof (cases "tasks s ! t")
  case (AwaitFirst tx lg j)
  then have ne: "tx \<noteq> []" using assms(1,2) by (auto simp: all_inv_def tasks_inv_def)
  from assms(3) AwaitFirst have j: "j < length (jobs s)"
    by (auto simp: wake_def split: if_splits)
  show ?thesis
  proof (cases "entry (jobs s ! j)")
    case Pending
    then show ?thesis using assms(3) AwaitFirst j by (simp add: wake_def)
  next
    case (Fulfilled v)
    let ?s0 = "s \<lparr> obs := obs s @ [(t, j, v)] \<rparr>"
    have "data_inv ?s0" using assms(1) obs_append_inv[OF _ j Fulfilled] by (simp add: all_inv_def)
    then have "all_inv ?s0" using assms(1) by (simp add: all_inv_def tasks_inv_def)
    then have "all_inv (playTTS_first pf t tx lg v ?s0)" using ne by (rule playTTS_first_inv)
    then show ?thesis using assms(3) AwaitFirst j Fulfilled by (simp add: wake_def)
  next
    case (Rejected e)
    then have e: "s' = s \<lparr> tasks := (tasks s)[t := TRejected e] \<rparr>"
      using assms(3) AwaitFirst j by (simp add: wake_def)
    show ?thesis unfolding e using assms(1) by (rule all_inv_tasks_update) simp
  qed
next
  case (AwaitRetry tx lg j)
  from assms(3) AwaitRetry have j: "j < length (jobs s)"
    by (auto simp: wake_def split: if_splits)
  show ?thesis
  proof (cases "entry (jobs s ! j)")
    case Pending
    then show ?thesis using assms(3) AwaitRetry j by (simp add: wake_def)
  next
    case (Fulfilled v)
    let ?s0 = "s \<lparr> obs := obs s @ [(t, j, v)] \<rparr>"
    have "data_inv ?s0" using assms(1) obs_append_inv[OF _ j Fulfilled] by (simp add: all_inv_def)
    then have "all_inv ?s0" using assms(1) by (simp add: all_inv_def tasks_inv_def)
    then have "all_inv (playTTS_retry t v ?s0)" by (rule playTTS_retry_inv)
    then show ?thesis using assms(3) AwaitRetry j Fulfilled by (simp add: wake_def)
  next
    case (Rejected e)
    then have e: "s' = s \<lparr> tasks := (tasks s)[t := TRejected e] \<rparr>"
      using assms(3) AwaitRetry j by (simp add: wake_def)
    show ?thesis unfolding e using assms(1) by (rule all_inv_tasks_update) simp
  qed
qed (use assms(3) in \<open>simp_all add: wake_def\<close>)

lemma step_inv:
  assumes "all_inv s" "step pf e s = Some s'"
  shows "all_inv s'"
proof (cases e)
  case (CallPlay tx lg)
  then show ?thesis using assms playTTS_call_inv by auto
next
  case (CallPrefetch tx lg)
  then show ?thesis using assms prefetchTTS_inv by auto
next
  case (Resumed t ok)
  with assms(2) obtain tx lg r where
    t: "t < length (tasks s)" "tasks s ! t = AwaitResume tx lg r"
    and s': "s' = playTTS_resumed pf t tx lg (resumeAudioContext_resume r ok s)"
    by (auto split: if_splits task.splits)
  have ne: "tx \<noteq> []" using assms(1) t by (auto simp: all_inv_def tasks_inv_def)
  have "all_inv (resumeAudioContext_resume r ok s)"
    using assms(1) all_inv_audioCtx by (simp add: resumeAudioContext_resume_def)
  then show ?thesis unfolding s' using ne by (rule playTTS_resumed_inv)
next
  case (Settle j resp)
  with assms(2) have j: "j < length (jobs s)" "entry (jobs s ! j) = Pending" and s': "s' = settle j resp s"
    by (auto split: if_splits)
  have "data_inv s'" unfolding s' using assms(1) settle_inv[OF _ j] by (simp add: all_inv_def)
  then show ?thesis using assms(1) settle_tasks[OF j(1)] all_inv_data s' by blast
next
  case (Wake t)
  then show ?thesis using assms wake_inv by (auto split: if_splits)
next
  case (Ended t)
  with assms(2) obtain b where s': "s' = s \<lparr> tasks := (tasks s)[t := TDone] \<rparr>"
    by (auto split: if_splits task.splits)
  show ?thesis unfolding s' using assms(1) by (rule all_inv_tasks_update) simp
qed

lemma reachable_inv: "reachable pf s \<Longrightarrow> all_inv s"
  by (induction rule: reachable_induct) (auto intro: all_inv_init step_inv)

subsection \<open>Concrete runs\<close>

lemmas model_defs =
  init_def falsy_def trim_def isWhiteSpace_def cacheKey_def getAiClient_def getAudioContext_def
  resumeAudioContext_call_def resumeAudioContext_resume_def fetchAndDecodeTTS_call_def
  fetchAndDecodeTTS_resume_def decode_response_def getTTSBuffer_def catch_handler_def settle_def playBuffer_def
  playTTS_call_def playTTS_resumed_def playTTS_first_def playTTS_retry_def prefetchTTS_def
  wake_def Let_def

lemma trim_nonempty: "trim text \<noteq> [] \<Longrightarrow> text \<noteq> []"
  by (auto simp: trim_def)

lemma trim_demo_text: "trim demo_text \<noteq> []"
  by (simp add: trim_def isWhiteSpace_def)

lemma decode_response_sample:
  "decode_response (Reply (Some demo_audio)) =
     Inr \<lparr> numberOfChannels = 1, sampleRate = 24000, channels = [[- 1, 32767 / 32768]] \<rparr>"
  by (simp add: decode_response_def falsy_def decode_payload_sample)

lemma decode_response_Failure: "decode_response Failure = Inl TransportError"
  by (simp add: decode_response_def)

lemma decode_response_invalid: "decode_response (Reply (Some [0x2A])) = Inl InvalidCharacterError"
  by (simp add: decode_response_def falsy_def decode_payload_def decodeBase64_eq atob_def
      strip_padding_def isAsciiWhitespace_def b64_index_def Let_def)

lemma run_play_pending:
  "run demo_platform [CallPlay demo_text demo_lang, Resumed 0 True] init
  = Some \<lparr> audioCtx = Some Running, ttsCache = [demo_lang @ [0x3A] @ demo_text \<mapsto> 0],
      jobs = [\<lparr> job_key = demo_lang @ [0x3A] @ demo_text, job_text = demo_text, job_lang = demo_lang,
                pipeline = Pending, entry = Pending \<rparr>],
      heap = [], tasks = [AwaitFirst demo_text demo_lang 0],
      requests = [demo_text], evictions = [], started = [], obs = [] \<rparr>"
  by (simp add: model_defs)

lemma settle_play_pending:
  "settle 0 Failure \<lparr> audioCtx = Some Running, ttsCache = [demo_lang @ [0x3A] @ demo_text \<mapsto> 0],
      jobs = [\<lparr> job_key = demo_lang @ [0x3A] @ demo_text, job_text = demo_text, job_lang = demo_lang,
                pipeline = Pending, entry = Pending \<rparr>],
      heap = [], tasks = [AwaitFirst demo_text demo_lang 0],
      requests = [demo_text], evictions = [], started = [], obs = [] \<rparr>
   = \<lparr> audioCtx = Some Running, ttsCache = Map.empty,
      jobs = [\<lparr> job_key = demo_lang @ [0x3A] @ demo_text, job_text = demo_text, job_lang = demo_lang,
                pipeline = Rejected TransportError, entry = Fulfilled None \<rparr>],
      heap = [], tasks = [AwaitFirst demo_text demo_lang 0],
      requests = [demo_text], evictions = [(demo_lang @ [0x3A] @ demo_text, ByHandler 0)],
      started = [], obs = [] \<rparr>"
  by (simp add: model_defs)

lemma run_two_callers:
  "run demo_platform [CallPlay demo_text demo_lang, CallPlay demo_text demo_lang, Resumed 0 True] init
  = Some \<lparr> audioCtx = Some Running, ttsCache = [demo_lang @ [0x3A] @ demo_text \<mapsto> 0],
      jobs = [\<lparr> job_key = demo_lang @ [0x3A] @ demo_text, job_text = demo_text, job_lang = demo_lang, pipeline = Pending, entry = Pending \<rparr>],
      heap = [], tasks = [AwaitFirst demo_text demo_lang 0, AwaitResume demo_text demo_lang True],
      requests = [demo_text], evictions = [], started = [], obs = [] \<rparr>"
  by (simp add: model_defs)

lemma run_fail_once:
  "run demo_platform [CallPlay demo_text demo_lang, Resumed 0 True, Settle 0 Failure, Wake 0] init
  = Some \<lparr> audioCtx = Some Running, ttsCache = [demo_lang @ [0x3A] @ demo_text \<mapsto> 1],
      jobs = [\<lparr> job_key = demo_lang @ [0x3A] @ demo_text, job_text = demo_text, job_lang = demo_lang,
                pipeline = Rejected TransportError, entry = Fulfilled None \<rparr>,
              \<lparr> job_key = demo_lang @ [0x3A] @ demo_text, job_text = demo_text, job_lang = demo_lang,
                pipeline = Pending, entry = Pending \<rparr>],
      heap = [], tasks = [AwaitRetry demo_text demo_lang 1],
      requests = [demo_text, demo_text],
      evictions = [(demo_lang @ [0x3A] @ demo_text, ByHandler 0), (demo_lang @ [0x3A] @ demo_text, ByPlay 0)],
      started = [], obs = [(0, 0, None)] \<rparr>"
  by (simp add: model_defs)


lemma run_prefetch_blank:
  "run demo_platform [CallPrefetch [0x20] demo_lang] init =
     Some \<lparr> audioCtx = None, ttsCache = [demo_lang @ [0x3A, 0x20] \<mapsto> 0],
            jobs = [\<lparr> job_key = demo_lang @ [0x3A, 0x20], job_text = [0x20], job_lang = demo_lang,
                      pipeline = Fulfilled None, entry = Pending \<rparr>],
            heap = [], tasks = [], requests = [], evictions = [], started = [], obs = [] \<rparr>"
  by (simp add: model_defs)

lemma prefetch_fail_facts:
  "prefetchTTS demo_platform demo_text demo_lang init =
     \<lparr> audioCtx = Some Suspended, ttsCache = [demo_lang @ [0x3A] @ demo_text \<mapsto> 0],
       jobs = [\<lparr> job_key = demo_lang @ [0x3A] @ demo_text, job_text = demo_text, job_lang = demo_lang,
                pipeline = Pending, entry = Pending \<rparr>],
       heap = [], tasks = [], requests = [demo_text], evictions = [], started = [], obs = [] \<rparr>"
  "settle 0 Failure (prefetchTTS demo_platform demo_text demo_lang init) =
     \<lparr> audioCtx = Some Suspended, ttsCache = Map.empty,
       jobs = [\<lparr> job_key = demo_lang @ [0x3A] @ demo_text, job_text = demo_text, job_lang = demo_lang,
                pipeline = Rejected TransportError, entry = Fulfilled None \<rparr>],
       heap = [], tasks = [], requests = [demo_text],
       evictions = [(demo_lang @ [0x3A] @ demo_text, ByHandler 0)], started = [], obs = [] \<rparr>"
  by (simp_all add: model_defs)

section \<open>Properties of the orchestration\<close>

subsection \<open>One pipeline per cache entry\<close>



























subsection \<open>The single retry\<close>

lemma retry_prefix:
  assumes "apiKey pf = Some k" "k \<noteq> []" "newAudioContext pf = Inr c" "trim text \<noteq> []"
    "decode_response r1 = Inl e1" "ttsCache s0 (cacheKey lang text) = None"
  shows "run pf [CallPlay text lang, Resumed (length (tasks s0)) ok, Settle (length (jobs s0)) r1,
                 Wake (length (tasks s0))] s0 =
    Some (s0 \<lparr> audioCtx := Some (let a = (case audioCtx s0 of None \<Rightarrow> c | Some a \<Rightarrow> a)
                               in if a = Suspended \<and> ok then Running else a),
           ttsCache := (ttsCache s0)(cacheKey lang text \<mapsto> Suc (length (jobs s0))),
           jobs := jobs s0 @
                  [\<lparr> job_key = cacheKey lang text, job_text = text, job_lang = lang,
                     pipeline = Rejected e1, entry = Fulfilled None \<rparr>,
                   \<lparr> job_key = cacheKey lang text, job_text = text, job_lang = lang,
                     pipeline = Pending, entry = Pending \<rparr>],
           tasks := tasks s0 @ [AwaitRetry text lang (Suc (length (jobs s0)))],
           requests := requests s0 @ [text, text],
           evictions := evictions s0 @ [(cacheKey lang text, ByHandler (length (jobs s0))),
                                        (cacheKey lang text, ByPlay (length (tasks s0)))],
           obs := obs s0 @ [(length (tasks s0), length (jobs s0), None)] \<rparr>)"
  using assms trim_nonempty[OF assms(4)]
  by (cases "audioCtx s0")
    (simp_all add: falsy_def getAiClient_def getAudioContext_def
      resumeAudioContext_call_def resumeAudioContext_resume_def fetchAndDecodeTTS_call_def
      fetchAndDecodeTTS_resume_def getTTSBuffer_def catch_handler_def settle_def playBuffer_def
      playTTS_call_def playTTS_resumed_def playTTS_first_def playTTS_retry_def wake_def Let_def
      nth_append)

lemma run_after_prefix:
  assumes "run pf [e1, e2, e3, e4] s = Some s1"
  shows "run pf (e1 # e2 # e3 # e4 # es) s = run pf es s1"
  using run_append[of pf "[e1, e2, e3, e4]" es s] assms by (simp only: append_Cons append_Nil option.case)

text \<open>
  Claim C2. Where the key is not cached, the platform has an API key and an audio
  context, and the text is not blank: if the first request fails, one call of
  \<^verbatim>\<open>playTTS\<close> makes exactly two calls of the pipeline. If the second request gives
  audio, the call starts one playback and completes when it ends; if the second request
  fails too, the call completes without playing and without a rejection. In both cases
  no step of the task or of its two jobs is left.
\<close>

theorem playTTS_single_retry:
  assumes "apiKey pf = Some k" "k \<noteq> []" "newAudioContext pf = Inr c" "trim text \<noteq> []"
    "decode_response r1 = Inl e1" "ttsCache s0 (cacheKey lang text) = None"
  shows "(\<forall>buf. decode_response r2 = Inr buf \<longrightarrow>
           (\<exists>s. run pf [CallPlay text lang, Resumed (length (tasks s0)) ok,
                        Settle (length (jobs s0)) r1, Wake (length (tasks s0)),
                        Settle (Suc (length (jobs s0))) r2, Wake (length (tasks s0)),
                        Ended (length (tasks s0))] s0 = Some s
              \<and> invocations (cacheKey lang text) s = invocations (cacheKey lang text) s0 + 2
              \<and> length (jobs s) = length (jobs s0) + 2
              \<and> requests s = requests s0 @ [text, text]
              \<and> started s = started s0 @ [length (heap s0)] \<and> heap s = heap s0 @ [buf]
              \<and> tasks s = tasks s0 @ [TDone]
              \<and> step pf (Wake (length (tasks s0))) s = None
              \<and> step pf (Resumed (length (tasks s0)) ok) s = None
              \<and> step pf (Ended (length (tasks s0))) s = None
              \<and> step pf (Settle (length (jobs s0)) r2) s = None
              \<and> step pf (Settle (Suc (length (jobs s0))) r2) s = None))
       \<and> (\<forall>e2. decode_response r2 = Inl e2 \<longrightarrow>
           (\<exists>s. run pf [CallPlay text lang, Resumed (length (tasks s0)) ok,
                        Settle (length (jobs s0)) r1, Wake (length (tasks s0)),
                        Settle (Suc (length (jobs s0))) r2, Wake (length (tasks s0))] s0 = Some s
              \<and> invocations (cacheKey lang text) s = invocations (cacheKey lang text) s0 + 2
              \<and> length (jobs s) = length (jobs s0) + 2
              \<and> requests s = requests s0 @ [text, text]
              \<and> started s = started s0 \<and> heap s = heap s0
              \<and> tasks s = tasks s0 @ [TDone]
              \<and> step pf (Wake (length (tasks s0))) s = None
              \<and> step pf (Resumed (length (tasks s0)) ok) s = None
              \<and> step pf (Ended (length (tasks s0))) s = None
              \<and> step pf (Settle (length (jobs s0)) r2) s = None
              \<and> step pf (Settle (Suc (length (jobs s0))) r2) s = None))"
proof (intro conjI allI impI)
  fix buf assume ok2: "decode_response r2 = Inr buf"
  show "\<exists>s. run pf [CallPlay text lang, Resumed (length (tasks s0)) ok,
                        Settle (length (jobs s0)) r1, Wake (length (tasks s0)),
                        Settle (Suc (length (jobs s0))) r2, Wake (length (tasks s0)),
                        Ended (length (tasks s0))] s0 = Some s
              \<and> invocations (cacheKey lang text) s = invocations (cacheKey lang text) s0 + 2
              \<and> length (jobs s) = length (jobs s0) + 2
              \<and> requests s = requests s0 @ [text, text]
              \<and> started s = started s0 @ [length (heap s0)] \<and> heap s = heap s0 @ [buf]
              \<and> tasks s = tasks s0 @ [TDone]
              \<and> step pf (Wake (length (tasks s0))) s = None
              \<and> step pf (Resumed (length (tasks s0)) ok) s = None
              \<and> step pf (Ended (length (tasks s0))) s = None
              \<and> step pf (Settle (length (jobs s0)) r2) s = None
              \<and> step pf (Settle (Suc (length (jobs s0))) r2) s = None"
    unfolding run_after_prefix[OF retry_prefix[OF assms]]
    using ok2
    by (simp add: fetchAndDecodeTTS_resume_def settle_def playBuffer_def playTTS_retry_def
        wake_def Let_def invocations_def nth_append list_update_append)
next
  fix e2 assume bad2: "decode_response r2 = Inl e2"
  show "\<exists>s. run pf [CallPlay text lang, Resumed (length (tasks s0)) ok,
                        Settle (length (jobs s0)) r1, Wake (length (tasks s0)),
                        Settle (Suc (length (jobs s0))) r2, Wake (length (tasks s0))] s0 = Some s
              \<and> invocations (cacheKey lang text) s = invocations (cacheKey lang text) s0 + 2
              \<and> length (jobs s) = length (jobs s0) + 2
              \<and> requests s = requests s0 @ [text, text]
              \<and> started s = started s0 \<and> heap s = heap s0
              \<and> tasks s = tasks s0 @ [TDone]
              \<and> step pf (Wake (length (tasks s0))) s = None
              \<and> step pf (Resumed (length (tasks s0)) ok) s = None
              \<and> step pf (Ended (length (tasks s0))) s = None
              \<and> step pf (Settle (length (jobs s0)) r2) s = None
              \<and> step pf (Settle (Suc (length (jobs s0))) r2) s = None"
    unfolding run_after_prefix[OF retry_prefix[OF assms]]
    using bad2
    by (simp add: fetchAndDecodeTTS_resume_def settle_def catch_handler_def playTTS_retry_def
        wake_def Let_def invocations_def nth_append list_update_append)
qed

theorem playTTS_single_retry_witness:
  "apiKey demo_platform = Some [0x6B] \<and> [0x6B :: 16 word] \<noteq> []
   \<and> newAudioContext demo_platform = Inr Suspended \<and> trim demo_text \<noteq> []
   \<and> decode_response Failure = Inl TransportError
   \<and> ttsCache init (cacheKey demo_lang demo_text) = None
   \<and> decode_response (Reply (Some demo_audio)) =
       Inr \<lparr> numberOfChannels = 1, sampleRate = 24000, channels = [[- 1, 32767 / 32768]] \<rparr>
   \<and> (\<exists>s. run demo_platform [CallPlay demo_text demo_lang, Resumed 0 True, Settle 0 Failure, Wake 0,
                        Settle 1 (Reply (Some demo_audio)), Wake 0, Ended 0] init = Some s
          \<and> invocations (cacheKey demo_lang demo_text) s = 2
          \<and> started s = [0] \<and> tasks s = [TDone])
   \<and> decode_response (Reply None) = Inl NoAudioData
   \<and> (\<exists>s. run demo_platform [CallPlay demo_text demo_lang, Resumed 0 True, Settle 0 Failure, Wake 0,
                        Settle 1 (Reply None), Wake 0] init = Some s
          \<and> invocations (cacheKey demo_lang demo_text) s = 2
          \<and> started s = [] \<and> tasks s = [TDone])"
proof -
  have a: "apiKey demo_platform = Some [0x6B]" "[0x6B :: 16 word] \<noteq> []"
    "newAudioContext demo_platform = Inr Suspended" by simp_all
  have m: "ttsCache init (cacheKey demo_lang demo_text) = None" by (simp add: init_def)
  have n: "decode_response (Reply None) = Inl NoAudioData" by (simp add: decode_response_def)
  have z: "length (tasks init) = 0" "length (jobs init) = 0" "invocations (cacheKey demo_lang demo_text) init = 0"
    "started init = []" "tasks init = []" "heap init = []"
    by (simp_all add: init_def invocations_def)
  note t1 = playTTS_single_retry[OF a trim_demo_text decode_response_Failure m,
      of "Reply (Some demo_audio)" True, unfolded z]
  note t2 = playTTS_single_retry[OF a trim_demo_text decode_response_Failure m,
      of "Reply None" True, unfolded z]
  have 1: "\<exists>s. run demo_platform [CallPlay demo_text demo_lang, Resumed 0 True, Settle 0 Failure, Wake 0,
                        Settle 1 (Reply (Some demo_audio)), Wake 0, Ended 0] init = Some s
          \<and> invocations (cacheKey demo_lang demo_text) s = 2
          \<and> started s = [0] \<and> tasks s = [TDone]"
    using t1 decode_response_sample by auto
  have 2: "\<exists>s. run demo_platform [CallPlay demo_text demo_lang, Resumed 0 True, Settle 0 Failure, Wake 0,
                        Settle 1 (Reply None), Wake 0] init = Some s
          \<and> invocations (cacheKey demo_lang demo_text) s = 2
          \<and> started s = [] \<and> tasks s = [TDone]"
    using t2 n by auto
  show ?thesis using a trim_demo_text decode_response_Failure decode_response_sample n m 1 2
    by (intro conjI)
qed

subsection \<open>Eviction of failed entries\<close>

lemma settle_failed:
  assumes j: "j < length (jobs s)" and f: "failed (jobs (settle j resp s) ! j)"
    and pend: "entry (jobs s ! j) = Pending"
  shows "evictions (settle j resp s) = evictions s @ [(job_key (jobs s ! j), ByHandler j)]
       \<and> ttsCache (settle j resp s) = (ttsCache s)(job_key (jobs s ! j) := None)
       \<and> entry (jobs (settle j resp s) ! j) = Fulfilled None
       \<and> heap (settle j resp s) = heap s \<and> tasks (settle j resp s) = tasks s
       \<and> started (settle j resp s) = started s \<and> obs (settle j resp s) = obs s
       \<and> length (jobs (settle j resp s)) = length (jobs s)"
proof -
  from settle_effect[OF j, of resp] obtain p v h c ev where
    st: "settle j resp s =
           s \<lparr> heap := h, ttsCache := c, evictions := ev,
               jobs := (jobs s)[j := (jobs s ! j) \<lparr> pipeline := p, entry := Fulfilled v \<rparr>] \<rparr>"
    and cases: "(p = Fulfilled v \<and> c = ttsCache s \<and> ev = evictions s)
            \<or> ((\<exists>e. p = Rejected e) \<and> v = None \<and> h = heap s
                \<and> c = (ttsCache s)(job_key (jobs s ! j) := None)
                \<and> ev = evictions s @ [(job_key (jobs s ! j), ByHandler j)])"
    by blast
  have "\<exists>e. p = Rejected e" using f j by (simp add: st failed_def)
  then have "v = None \<and> h = heap s
                \<and> c = (ttsCache s)(job_key (jobs s ! j) := None)
                \<and> ev = evictions s @ [(job_key (jobs s ! j), ByHandler j)]"
    using cases by auto
  then show ?thesis using j by (simp add: st)
qed

text \<open>
  Claim C3, as amended. The handler of a failed job has called \<^verbatim>\<open>ttsCache.delete\<close>
  exactly once, and that of any other job never. It does so in the step in which the
  failure is seen; after that step the key has no entry, so that \<^verbatim>\<open>getTTSBuffer\<close> for
  the same text and language calls the pipeline again.
\<close>

theorem handler_evicts_failed_entry_once:
  "(\<forall>pf s j. reachable pf s \<longrightarrow> j < length (jobs s) \<longrightarrow>
      handler_evictions j s = (if failed (jobs s ! j) then 1 else 0))
   \<and> (\<forall>pf s j resp s'. reachable pf s \<longrightarrow> step pf (Settle j resp) s = Some s' \<longrightarrow>
        failed (jobs s' ! j) \<longrightarrow>
          evictions s' = evictions s @ [(job_key (jobs s ! j), ByHandler j)]
          \<and> ttsCache s' (job_key (jobs s ! j)) = None
          \<and> entry (jobs s' ! j) = Fulfilled None
          \<and> fst (getTTSBuffer pf (job_text (jobs s ! j)) (job_lang (jobs s ! j)) s') = length (jobs s')
          \<and> invocations (job_key (jobs s ! j))
               (snd (getTTSBuffer pf (job_text (jobs s ! j)) (job_lang (jobs s ! j)) s'))
             = invocations (job_key (jobs s ! j)) s' + 1)"
proof (intro conjI allI impI)
  fix pf s j
  assume "reachable pf s" "j < length (jobs s)"
  then show "handler_evictions j s = (if failed (jobs s ! j) then 1 else 0)"
    using reachable_inv[of pf s] by (simp add: all_inv_def data_inv_def evict_inv_def)
next
  fix pf s j resp s'
  assume r: "reachable pf s" and st: "step pf (Settle j resp) s = Some s'"
    and f: "failed (jobs s' ! j)"
  from st have j: "j < length (jobs s)" and pend: "entry (jobs s ! j) = Pending"
    and s': "s' = settle j resp s"
    by (auto split: if_splits)
  note eff = settle_failed[OF j f[unfolded s'] pend, folded s']
  let ?jb = "jobs s ! j"
  have ji: "job_inv ?jb" using reachable_inv[OF r] j by (simp add: all_inv_def data_inv_def jobs_inv_def)
  then have key: "job_key ?jb = cacheKey (job_lang ?jb) (job_text ?jb)" by (simp add: job_inv_def)
  show "evictions s' = evictions s @ [(job_key ?jb, ByHandler j)]" using eff by simp
  show none: "ttsCache s' (job_key ?jb) = None" using eff by simp
  show "entry (jobs s' ! j) = Fulfilled None" using eff by simp
  have miss: "ttsCache s' (cacheKey (job_lang ?jb) (job_text ?jb)) = None" using none key by simp
  from getTTSBuffer_miss[OF miss, of pf] obtain p a rq where
    g: "getTTSBuffer pf (job_text ?jb) (job_lang ?jb) s' =
     (length (jobs s'),
      s' \<lparr> audioCtx := a, requests := rq,
          jobs := jobs s' @ [\<lparr> job_key = cacheKey (job_lang ?jb) (job_text ?jb), job_text = job_text ?jb,
                               job_lang = job_lang ?jb, pipeline = p, entry = Pending \<rparr>],
          ttsCache := (ttsCache s')(cacheKey (job_lang ?jb) (job_text ?jb) \<mapsto> length (jobs s')) \<rparr>)"
    by blast
  show "fst (getTTSBuffer pf (job_text ?jb) (job_lang ?jb) s') = length (jobs s')"
    by (simp add: g)
  show "invocations (job_key ?jb) (snd (getTTSBuffer pf (job_text ?jb) (job_lang ?jb) s'))
             = invocations (job_key ?jb) s' + 1"
    by (simp add: g invocations_def key)
qed

theorem handler_evicts_failed_entry_once_witness:
  "reachable demo_platform (the (run demo_platform [CallPlay demo_text demo_lang, Resumed 0 True] init))
   \<and> step demo_platform (Settle 0 Failure)
        (the (run demo_platform [CallPlay demo_text demo_lang, Resumed 0 True] init))
      = Some (settle 0 Failure (the (run demo_platform [CallPlay demo_text demo_lang, Resumed 0 True] init)))
   \<and> failed (jobs (settle 0 Failure
        (the (run demo_platform [CallPlay demo_text demo_lang, Resumed 0 True] init))) ! 0)
   \<and> handler_evictions 0 (settle 0 Failure
        (the (run demo_platform [CallPlay demo_text demo_lang, Resumed 0 True] init))) = 1
   \<and> evictions (settle 0 Failure
        (the (run demo_platform [CallPlay demo_text demo_lang, Resumed 0 True] init)))
      = [(cacheKey demo_lang demo_text, ByHandler 0)]
   \<and> ttsCache (settle 0 Failure
        (the (run demo_platform [CallPlay demo_text demo_lang, Resumed 0 True] init)))
        (cacheKey demo_lang demo_text) = None
   \<and> fst (getTTSBuffer demo_platform demo_text demo_lang (settle 0 Failure
        (the (run demo_platform [CallPlay demo_text demo_lang, Resumed 0 True] init)))) = 1
   \<and> invocations (cacheKey demo_lang demo_text)
        (snd (getTTSBuffer demo_platform demo_text demo_lang (settle 0 Failure
          (the (run demo_platform [CallPlay demo_text demo_lang, Resumed 0 True] init))))) = 2"
proof -
  let ?s = "the (run demo_platform [CallPlay demo_text demo_lang, Resumed 0 True] init)"
  let ?s' = "settle 0 Failure ?s"
  have k: "cacheKey demo_lang demo_text = demo_lang @ [0x3A] @ demo_text" by (simp add: cacheKey_def)
  have r: "reachable demo_platform ?s"
    by (rule reachable_run_init[of _ "[CallPlay demo_text demo_lang, Resumed 0 True]"])
      (simp only: run_play_pending option.sel)
  have st: "step demo_platform (Settle 0 Failure) ?s = Some ?s'"
    unfolding run_play_pending by simp
  have r': "reachable demo_platform ?s'" using r st by (rule reachable_step)
  have f: "failed (jobs ?s' ! 0)"
    unfolding run_play_pending option.sel settle_play_pending by (simp add: failed_def)
  have l': "(0 :: nat) < length (jobs ?s')"
    unfolding run_play_pending option.sel settle_play_pending by simp
  have facts: "job_key (jobs ?s ! 0) = cacheKey demo_lang demo_text"
    "job_text (jobs ?s ! 0) = demo_text" "job_lang (jobs ?s ! 0) = demo_lang"
    "evictions ?s = []" "length (jobs ?s') = 1"
    "invocations (cacheKey demo_lang demo_text) ?s' = 1"
    unfolding run_play_pending option.sel settle_play_pending k by (simp_all add: invocations_def)
  note t = handler_evicts_failed_entry_once
  note t1 = t[THEN conjunct1, rule_format]
  note t2 = t[THEN conjunct2, rule_format]
  have 1: "handler_evictions 0 ?s' = 1" using t1[OF r' l'] f by simp
  note 2 = t2[OF r st f, unfolded facts]
  show ?thesis using r st f 1 2 by simp
qed

text \<open>
  One call of \<^verbatim>\<open>playTTS\<close> whose first request fails: when the retry is pending,
  \<^verbatim>\<open>ttsCache.delete\<close> has been called twice for the key (by the handler and by line 345)
  and one pipeline has failed. The claim C3 as stated, exactly one call of delete for a
  failed computation, fails there.
\<close>

theorem delete_called_twice_for_one_failure:
  "map fst (evictions (the (run demo_platform
       [CallPlay demo_text demo_lang, Resumed 0 True, Settle 0 Failure, Wake 0] init)))
     = [cacheKey demo_lang demo_text, cacheKey demo_lang demo_text]
   \<and> map pipeline (jobs (the (run demo_platform
       [CallPlay demo_text demo_lang, Resumed 0 True, Settle 0 Failure, Wake 0] init)))
     = [Rejected TransportError, Pending]"
  unfolding run_fail_once by (simp add: cacheKey_def)

subsection \<open>Rejections of playTTS\<close>

lemma tasks_rej_append:
  "tasks_rej pf s \<Longrightarrow> tasks s' = tasks s @ [tk] \<Longrightarrow> rej_ok pf tk \<Longrightarrow> tasks_rej pf s'"
  by (auto simp: tasks_rej_def nth_append less_Suc_eq)

lemma tasks_rej_update:
  assumes "tasks_rej pf s" "tasks s' = (tasks s)[t := tk]" "rej_ok pf tk"
  shows "tasks_rej pf s'"
proof -
  have "rej_ok pf ((tasks s)[t := tk] ! i)" if "i < length (tasks s)" for i
    using that assms(1,3) by (cases "i = t") (simp_all add: tasks_rej_def)
  then show ?thesis by (simp add: tasks_rej_def assms(2))
qed

lemma tasks_rej_same: "tasks_rej pf s \<Longrightarrow> tasks s' = tasks s \<Longrightarrow> tasks_rej pf s'"
  by (simp add: tasks_rej_def)

lemma step_tasks_rej:
  assumes inv: "all_inv s" and tr: "tasks_rej pf s" and st: "step pf e s = Some s'"
  shows "tasks_rej pf s'"
proof (cases e)
  case (CallPlay tx lg)
  then have s': "s' = playTTS_call pf tx lg s" using st by simp
  show ?thesis
  proof (cases "falsy tx")
    case True
    then have "tasks s' = tasks s @ [TDone]" by (simp add: s' playTTS_call_def)
    with tr show ?thesis by (rule tasks_rej_append) (simp add: rej_ok_def)
  next
    case False
    show ?thesis
    proof (cases "getAudioContext pf s")
      case (Inl e)
      then have "tasks s' = tasks s @ [TRejected e]"
        using False by (simp add: s' playTTS_call_def resumeAudioContext_call_def)
      with tr show ?thesis
        by (rule tasks_rej_append) (simp add: rej_ok_def getAudioContext_Inl[OF Inl])
    next
      case (Inr s1)
      then obtain a where s1: "s1 = s \<lparr> audioCtx := a \<rparr>" using getAudioContext_effect by blast
      have "tasks s' = tasks s @ [AwaitResume tx lg (audioCtx s1 = Some Suspended)]"
        using False Inr by (simp add: s' playTTS_call_def resumeAudioContext_call_def s1)
      with tr show ?thesis by (rule tasks_rej_append) (simp add: rej_ok_def)
    qed
  qed
next
  case (CallPrefetch tx lg)
  then have "tasks s' = tasks s" using st getTTSBuffer_tasks[of pf tx lg s]
    by (auto simp: prefetchTTS_def)
  with tr show ?thesis by (rule tasks_rej_same)
next
  case (Resumed t ok)
  with st obtain tx lg r where
    s': "s' = playTTS_resumed pf t tx lg (resumeAudioContext_resume r ok s)"
    by (auto split: if_splits task.splits)
  let ?s0 = "resumeAudioContext_resume r ok s"
  have t0: "tasks ?s0 = tasks s" by (simp add: resumeAudioContext_resume_def)
  show ?thesis
  proof (cases "getAudioContext pf ?s0")
    case (Inl e)
    then have "tasks s' = (tasks s)[t := TRejected e]" using t0 by (simp add: s' playTTS_resumed_def)
    with tr show ?thesis
      by (rule tasks_rej_update) (simp add: rej_ok_def getAudioContext_Inl[OF Inl])
  next
    case (Inr s1)
    then obtain a where s1: "s1 = ?s0 \<lparr> audioCtx := a \<rparr>" using getAudioContext_effect by blast
    obtain j s2 where g: "getTTSBuffer pf tx lg s1 = (j, s2)" by (cases "getTTSBuffer pf tx lg s1")
    have "tasks s2 = tasks s" using getTTSBuffer_tasks[of pf tx lg s1] g t0 by (simp add: s1)
    then have "tasks s' = (tasks s)[t := AwaitFirst tx lg j]"
      using Inr g by (simp add: s' playTTS_resumed_def)
    with tr show ?thesis by (rule tasks_rej_update) (simp add: rej_ok_def)
  qed
next
  case (Settle j resp)
  with st have "tasks s' = tasks s" by (auto simp: settle_tasks split: if_splits)
  with tr show ?thesis by (rule tasks_rej_same)
next
  case (Wake t)
  with st have w: "wake pf t s = Some s'" by (auto split: if_splits)
  have nr: "entry (jobs s ! j) \<noteq> Rejected e" if "j < length (jobs s)" for j e
    using inv that by (simp add: all_inv_def data_inv_def jobs_inv_def job_inv_def)
  show ?thesis
  proof (cases "tasks s ! t")
    case (AwaitFirst tx lg j)
    with w obtain v where j: "j < length (jobs s)" and s': "s' = playTTS_first pf t tx lg v (s \<lparr> obs := obs s @ [(t, j, v)] \<rparr>)"
      using nr by (auto simp: wake_def split: if_splits promise.splits)
    let ?s0 = "s \<lparr> obs := obs s @ [(t, j, v)] \<rparr>"
    show ?thesis
    proof (cases v)
      case None
      let ?s1 = "?s0 \<lparr> ttsCache := (ttsCache ?s0)(cacheKey lg tx := None),
                  evictions := evictions ?s0 @ [(cacheKey lg tx, ByPlay t)] \<rparr>"
      obtain j2 s2 where g: "getTTSBuffer pf tx lg ?s1 = (j2, s2)" by (cases "getTTSBuffer pf tx lg ?s1")
      have "tasks s2 = tasks s" using getTTSBuffer_tasks[of pf tx lg ?s1] g by simp
      then have "tasks s' = (tasks s)[t := AwaitRetry tx lg j2]"
        using None g by (simp add: s' playTTS_first_def)
      with tr show ?thesis by (rule tasks_rej_update) (simp add: rej_ok_def)
    next
      case (Some b)
      then have "tasks s' = (tasks s)[t := Playing b]" by (simp add: s' playTTS_first_def playBuffer_def)
      with tr show ?thesis by (rule tasks_rej_update) (simp add: rej_ok_def)
    qed
  next
    case (AwaitRetry tx lg j)
    with w obtain v where j: "j < length (jobs s)" and s': "s' = playTTS_retry t v (s \<lparr> obs := obs s @ [(t, j, v)] \<rparr>)"
      using nr by (auto simp: wake_def split: if_splits promise.splits)
    show ?thesis
    proof (cases v)
      case None
      then have "tasks s' = (tasks s)[t := TDone]" by (simp add: s' playTTS_retry_def)
      with tr show ?thesis by (rule tasks_rej_update) (simp add: rej_ok_def)
    next
      case (Some b)
      then have "tasks s' = (tasks s)[t := Playing b]" by (simp add: s' playTTS_retry_def playBuffer_def)
      with tr show ?thesis by (rule tasks_rej_update) (simp add: rej_ok_def)
    qed
  qed (use w in \<open>simp_all add: wake_def\<close>)
next
  case (Ended t)
  with st have "tasks s' = (tasks s)[t := TDone]" by (auto split: if_splits task.splits)
  with tr show ?thesis by (rule tasks_rej_update) (simp add: rej_ok_def)
qed

lemma reachable_tasks_rej: "reachable pf s \<Longrightarrow> tasks_rej pf s"
proof (induction rule: reachable_induct)
  case init
  then show ?case by (simp add: tasks_rej_def init_def)
next
  case (step s e s')
  then show ?case using step_tasks_rej reachable_inv by blast
qed

text \<open>
  Claim C4, as amended. A call of \<^verbatim>\<open>playTTS\<close> is rejected only with the error of the
  audio context constructor: no failure of the request, of the decoding or of
  \<^verbatim>\<open>ctx.resume()\<close> reaches the caller. \<^verbatim>\<open>prefetchTTS\<close> starts no task and no playback
  and creates no buffer; when its pipeline fails, the cache is afterwards what it was
  before the call, and tasks, playbacks, buffers and observations are unchanged.
\<close>

theorem playTTS_rejects_only_without_audio_context:
  "(\<forall>pf s t e. reachable pf s \<longrightarrow> t < length (tasks s) \<longrightarrow> tasks s ! t = TRejected e \<longrightarrow>
       newAudioContext pf = Inl e)
   \<and> (\<forall>pf text lang s. tasks (prefetchTTS pf text lang s) = tasks s
        \<and> started (prefetchTTS pf text lang s) = started s
        \<and> heap (prefetchTTS pf text lang s) = heap s)
   \<and> (\<forall>pf text lang s resp.
        text \<noteq> [] \<longrightarrow> ttsCache s (cacheKey lang text) = None \<longrightarrow>
        failed (jobs (settle (length (jobs s)) resp (prefetchTTS pf text lang s)) ! length (jobs s)) \<longrightarrow>
          step pf (Settle (length (jobs s)) resp) (prefetchTTS pf text lang s)
            = Some (settle (length (jobs s)) resp (prefetchTTS pf text lang s))
          \<and> ttsCache (settle (length (jobs s)) resp (prefetchTTS pf text lang s)) = ttsCache s
          \<and> tasks (settle (length (jobs s)) resp (prefetchTTS pf text lang s)) = tasks s
          \<and> started (settle (length (jobs s)) resp (prefetchTTS pf text lang s)) = started s
          \<and> heap (settle (length (jobs s)) resp (prefetchTTS pf text lang s)) = heap s
          \<and> obs (settle (length (jobs s)) resp (prefetchTTS pf text lang s)) = obs s)"
proof (intro conjI allI impI)
  fix pf s t e
  assume "reachable pf s" "t < length (tasks s)" "tasks s ! t = TRejected e"
  then show "newAudioContext pf = Inl e"
    using reachable_tasks_rej[of pf s] by (auto simp: tasks_rej_def rej_ok_def)
next
  fix pf tx lg s
  show "tasks (prefetchTTS pf tx lg s) = tasks s"
    using getTTSBuffer_tasks[of pf tx lg s] by (simp add: prefetchTTS_def)
  show "started (prefetchTTS pf tx lg s) = started s"
  proof (cases "ttsCache s (cacheKey lg tx)")
    case None
    from getTTSBuffer_miss[OF None, of pf] show ?thesis by (auto simp: prefetchTTS_def)
  next
    case (Some j)
    then show ?thesis by (simp add: prefetchTTS_def getTTSBuffer_hit)
  qed
  show "heap (prefetchTTS pf tx lg s) = heap s"
  proof (cases "ttsCache s (cacheKey lg tx)")
    case None
    from getTTSBuffer_miss[OF None, of pf] show ?thesis by (auto simp: prefetchTTS_def)
  next
    case (Some j)
    then show ?thesis by (simp add: prefetchTTS_def getTTSBuffer_hit)
  qed
next
  fix pf tx lg resp and s :: state
  let ?n = "length (jobs s)"
  let ?s1 = "prefetchTTS pf tx lg s"
  assume ne: "tx \<noteq> []" and miss: "ttsCache s (cacheKey lg tx) = None"
    and f: "failed (jobs (settle ?n resp ?s1) ! ?n)"
  from prefetch_miss[OF ne miss, of pf] obtain p a rq where
    s1: "?s1 = s \<lparr> audioCtx := a, requests := rq,
          jobs := jobs s @ [\<lparr> job_key = cacheKey lg tx, job_text = tx, job_lang = lg,
                               pipeline = p, entry = Pending \<rparr>],
          ttsCache := (ttsCache s)(cacheKey lg tx \<mapsto> length (jobs s)) \<rparr>"
    by blast
  have n: "?n < length (jobs ?s1)" and pend: "entry (jobs ?s1 ! ?n) = Pending"
    and k: "job_key (jobs ?s1 ! ?n) = cacheKey lg tx"
    by (simp_all add: s1)
  note eff = settle_failed[OF n f pend]
  show "step pf (Settle ?n resp) ?s1 = Some (settle ?n resp ?s1)" using n pend by simp
  have "ttsCache (settle ?n resp ?s1) = (ttsCache ?s1)(cacheKey lg tx := None)"
    using eff k by simp
  also have "\<dots> = ttsCache s" using miss by (auto simp: s1 fun_eq_iff)
  finally show "ttsCache (settle ?n resp ?s1) = ttsCache s" .
  show "tasks (settle ?n resp ?s1) = tasks s" using eff by (simp add: s1)
  show "started (settle ?n resp ?s1) = started s" using eff by (simp add: s1)
  show "heap (settle ?n resp ?s1) = heap s" using eff by (simp add: s1)
  show "obs (settle ?n resp ?s1) = obs s" using eff by (simp add: s1)
qed

theorem playTTS_rejects_only_without_audio_context_witness:
  "reachable \<lparr> apiKey = Some [0x6B], newAudioContext = Inl AudioContextError \<rparr>
     (the (step \<lparr> apiKey = Some [0x6B], newAudioContext = Inl AudioContextError \<rparr>
                (CallPlay demo_text demo_lang) init))
   \<and> tasks (the (step \<lparr> apiKey = Some [0x6B], newAudioContext = Inl AudioContextError \<rparr>
                (CallPlay demo_text demo_lang) init)) ! 0 = TRejected AudioContextError
   \<and> newAudioContext \<lparr> apiKey = Some [0x6B], newAudioContext = Inl AudioContextError \<rparr>
        = Inl AudioContextError
   \<and> demo_text \<noteq> [] \<and> ttsCache init (cacheKey demo_lang demo_text) = None
   \<and> failed (jobs (settle (length (jobs init)) Failure
         (prefetchTTS demo_platform demo_text demo_lang init)) ! length (jobs init))
   \<and> ttsCache (settle (length (jobs init)) Failure
         (prefetchTTS demo_platform demo_text demo_lang init)) = ttsCache init
   \<and> tasks (settle (length (jobs init)) Failure
         (prefetchTTS demo_platform demo_text demo_lang init)) = tasks init
   \<and> started (settle (length (jobs init)) Failure
         (prefetchTTS demo_platform demo_text demo_lang init)) = started init"
proof -
  let ?pf = "\<lparr> apiKey = Some [0x6B], newAudioContext = Inl AudioContextError \<rparr>"
  let ?s = "the (step ?pf (CallPlay demo_text demo_lang) init)"
  have st: "step ?pf (CallPlay demo_text demo_lang) init = Some ?s" by simp
  have r: "reachable ?pf ?s" using reachable_init st by (rule reachable_step)
  have tk: "tasks ?s = [TRejected AudioContextError]" by (simp add: model_defs)
  then have l: "0 < length (tasks ?s)" and t0: "tasks ?s ! 0 = TRejected AudioContextError"
    by simp_all
  note t = playTTS_rejects_only_without_audio_context
  note t1 = t[THEN conjunct1, rule_format]
  note t3 = t[THEN conjunct2, THEN conjunct2, rule_format]
  have 1: "newAudioContext ?pf = Inl AudioContextError" using r l t0 by (rule t1)
  have ne: "demo_text \<noteq> []" by simp
  have miss: "ttsCache init (cacheKey demo_lang demo_text) = None" by (simp add: init_def)
  have n0: "length (jobs init) = 0" by (simp add: init_def)
  have f: "failed (jobs (settle (length (jobs init)) Failure
         (prefetchTTS demo_platform demo_text demo_lang init)) ! length (jobs init))"
    unfolding n0 prefetch_fail_facts(2) by (simp add: failed_def)
  note 3 = t3[OF ne miss f]
  show ?thesis using r t0 1 ne miss f 3 by blast
qed

text \<open>
  On a platform whose audio context constructor throws, \<^verbatim>\<open>playTTS\<close> is rejected: the
  claim C4 as stated, that it never rejects, fails there.
\<close>

theorem playTTS_rejects_without_audio_context:
  "tasks (the (step \<lparr> apiKey = Some [0x6B], newAudioContext = Inl AudioContextError \<rparr>
                    (CallPlay demo_text demo_lang) init))
     = [TRejected AudioContextError]"
  by (simp add: model_defs)

subsection \<open>The guards on the text\<close>

text \<open>
  Claim C8. For the empty text \<^verbatim>\<open>playTTS\<close> completes at once and \<^verbatim>\<open>prefetchTTS\<close>
  returns at once: no request is sent, no pipeline is called, and the cache and the audio
  context are untouched. The state changes only in that the call of \<^verbatim>\<open>playTTS\<close> is
  recorded as done.
\<close>

theorem empty_text_is_noop:
  "step pf (CallPlay [] lang) s = Some (s \<lparr> tasks := tasks s @ [TDone] \<rparr>)
   \<and> step pf (CallPrefetch [] lang) s = Some s
   \<and> playTTS_call pf [] lang s = s \<lparr> tasks := tasks s @ [TDone] \<rparr>
   \<and> ttsCache (playTTS_call pf [] lang s) = ttsCache s
   \<and> audioCtx (playTTS_call pf [] lang s) = audioCtx s
   \<and> requests (playTTS_call pf [] lang s) = requests s
   \<and> jobs (playTTS_call pf [] lang s) = jobs s
   \<and> started (playTTS_call pf [] lang s) = started s
   \<and> prefetchTTS pf [] lang s = s"
  by (simp add: playTTS_call_def prefetchTTS_def falsy_def)

text \<open>
  Claim C9, as amended. Every call of the pipeline made through \<^verbatim>\<open>playTTS\<close> or
  \<^verbatim>\<open>prefetchTTS\<close> has a text that is not empty; the text may be blank, and then the
  guard of the pipeline returns null and changes nothing, so that no request is sent.
\<close>

theorem pipeline_text_nonempty_untrimmed:
  "(\<forall>pf s j. reachable pf s \<longrightarrow> j < length (jobs s) \<longrightarrow> job_text (jobs s ! j) \<noteq> [])
   \<and> (\<forall>pf text lang s. trim text = [] \<longrightarrow>
         fetchAndDecodeTTS_call pf text lang s = (Fulfilled None, s))"
proof (intro conjI allI impI)
  fix pf s j
  assume "reachable pf s" "j < length (jobs s)"
  then show "job_text (jobs s ! j) \<noteq> []"
    using reachable_inv[of pf s] by (simp add: all_inv_def data_inv_def jobs_inv_def job_inv_def)
next
  fix pf tx lg and s :: state
  assume "trim tx = []"
  then show "fetchAndDecodeTTS_call pf tx lg s = (Fulfilled None, s)"
    by (simp add: fetchAndDecodeTTS_call_def falsy_def)
qed

theorem pipeline_text_nonempty_untrimmed_witness:
  "reachable demo_platform (the (run demo_platform [CallPrefetch [0x20] demo_lang] init))
   \<and> (0 :: nat) < length (jobs (the (run demo_platform [CallPrefetch [0x20] demo_lang] init)))
   \<and> job_text (jobs (the (run demo_platform [CallPrefetch [0x20] demo_lang] init)) ! 0) \<noteq> []
   \<and> trim [0x20] = []
   \<and> fetchAndDecodeTTS_call demo_platform [0x20] demo_lang init = (Fulfilled None, init)"
proof -
  let ?s = "the (run demo_platform [CallPrefetch [0x20] demo_lang] init)"
  have r: "reachable demo_platform ?s"
    by (rule reachable_run_init[of _ "[CallPrefetch [0x20] demo_lang]"]) (simp only: run_prefetch_blank option.sel)
  have l: "(0 :: nat) < length (jobs ?s)" unfolding run_prefetch_blank by simp
  have t: "trim [0x20] = []" by (simp add: trim_def isWhiteSpace_def)
  have "job_text (jobs ?s ! 0) \<noteq> []"
    using pipeline_text_nonempty_untrimmed r l by blast
  moreover have "fetchAndDecodeTTS_call demo_platform [0x20] demo_lang init = (Fulfilled None, init)"
    using pipeline_text_nonempty_untrimmed t by blast
  ultimately show ?thesis using r l t by (intro conjI)
qed

text \<open>
  \<^verbatim>\<open>prefetchTTS\<close> with the text of one space calls the pipeline with that text, which is
  empty after trimming: the claim C9 as stated fails there.
\<close>

theorem pipeline_reached_with_blank_text:
  "map job_text (jobs (the (run demo_platform [CallPrefetch [0x20] demo_lang] init))) = [[0x20]]
   \<and> trim [0x20] = []
   \<and> map pipeline (jobs (the (run demo_platform [CallPrefetch [0x20] demo_lang] init)))
       = [Fulfilled None]"
  unfolding run_prefetch_blank by (simp add: trim_def isWhiteSpace_def)

subsection \<open>The cached promise\<close>

lemma settle_rejected:
  assumes j: "j < length (jobs s)" and p: "pipeline (jobs s ! j) = Pending"
    and d: "decode_response resp = Inl e"
  shows "pipeline (jobs (settle j resp s) ! j) = Rejected e
       \<and> entry (jobs (settle j resp s) ! j) = Fulfilled None"
  using assms by (simp add: settle_def Let_def fetchAndDecodeTTS_resume_def catch_handler_def)

lemma settle_noop_null:
  assumes j: "j < length (jobs s)" and p: "pipeline (jobs s ! j) = Fulfilled None"
  shows "entry (jobs (settle j resp s) ! j) = Fulfilled None"
  using assms by (simp add: settle_def Let_def)

text \<open>
  Claim C10. The promise of \<^verbatim>\<open>getTTSBuffer\<close> follows an entry of the cache, and no entry
  of a reachable state is rejected. Whatever the outcome of the request, a pending entry
  can settle, and it is then fulfilled: with the value of the pipeline, or with null when
  the pipeline was rejected (a failed request, no audio payload and invalid base64 are
  such rejections). A pipeline that returned null at its guard fulfils the entry with
  null as well, so null does not tell the two apart.
\<close>

theorem cached_promise_never_rejects:
  "(\<forall>pf s j e. reachable pf s \<longrightarrow> j < length (jobs s) \<longrightarrow> entry (jobs s ! j) \<noteq> Rejected e)
   \<and> (\<forall>pf s j resp. j < length (jobs s) \<longrightarrow> entry (jobs s ! j) = Pending \<longrightarrow>
         step pf (Settle j resp) s = Some (settle j resp s)
         \<and> (\<exists>v. entry (jobs (settle j resp s) ! j) = Fulfilled v
               \<and> (pipeline (jobs (settle j resp s) ! j) = Fulfilled v
                  \<or> (v = None \<and> (\<exists>e. pipeline (jobs (settle j resp s) ! j) = Rejected e)))))
   \<and> (\<forall>s j resp e. j < length (jobs s) \<longrightarrow> pipeline (jobs s ! j) = Pending \<longrightarrow>
         decode_response resp = Inl e \<longrightarrow>
           pipeline (jobs (settle j resp s) ! j) = Rejected e
           \<and> entry (jobs (settle j resp s) ! j) = Fulfilled None)
   \<and> decode_response Failure = Inl TransportError
   \<and> decode_response (Reply None) = Inl NoAudioData
   \<and> decode_response (Reply (Some [0x2A])) = Inl InvalidCharacterError
   \<and> (\<forall>s j resp. j < length (jobs s) \<longrightarrow> pipeline (jobs s ! j) = Fulfilled None \<longrightarrow>
         entry (jobs (settle j resp s) ! j) = Fulfilled None)
   \<and> (\<forall>pf text lang s. trim text = [] \<longrightarrow>
         fst (fetchAndDecodeTTS_call pf text lang s) = Fulfilled None)"
proof (intro conjI allI impI)
  fix pf s j e
  assume "reachable pf s" "j < length (jobs s)"
  then show "entry (jobs s ! j) \<noteq> Rejected e"
    using reachable_inv[of pf s] by (simp add: all_inv_def data_inv_def jobs_inv_def job_inv_def)
next
  fix pf resp j and s :: state
  assume j: "j < length (jobs s)" and p: "entry (jobs s ! j) = Pending"
  show "step pf (Settle j resp) s = Some (settle j resp s)" using j p by simp
  from settle_effect[OF j, of resp] obtain p v h c ev where
    st: "settle j resp s =
           s \<lparr> heap := h, ttsCache := c, evictions := ev,
               jobs := (jobs s)[j := (jobs s ! j) \<lparr> pipeline := p, entry := Fulfilled v \<rparr>] \<rparr>"
    and cases: "(p = Fulfilled v \<and> c = ttsCache s \<and> ev = evictions s)
            \<or> ((\<exists>e. p = Rejected e) \<and> v = None \<and> h = heap s
                \<and> c = (ttsCache s)(job_key (jobs s ! j) := None)
                \<and> ev = evictions s @ [(job_key (jobs s ! j), ByHandler j)])"
    by blast
  have "entry (jobs (settle j resp s) ! j) = Fulfilled v"
    "pipeline (jobs (settle j resp s) ! j) = p"
    using j by (simp_all add: st)
  then show "\<exists>v. entry (jobs (settle j resp s) ! j) = Fulfilled v
               \<and> (pipeline (jobs (settle j resp s) ! j) = Fulfilled v
                  \<or> (v = None \<and> (\<exists>e. pipeline (jobs (settle j resp s) ! j) = Rejected e)))"
    using cases by auto
next
  fix resp j e and s :: state
  assume "j < length (jobs s)" "pipeline (jobs s ! j) = Pending" "decode_response resp = Inl e"
  then show "pipeline (jobs (settle j resp s) ! j) = Rejected e"
    "entry (jobs (settle j resp s) ! j) = Fulfilled None"
    using settle_rejected by blast+
next
  show "decode_response Failure = Inl TransportError" by (simp add: decode_response_def)
  show "decode_response (Reply None) = Inl NoAudioData" by (simp add: decode_response_def)
  show "decode_response (Reply (Some [0x2A])) = Inl InvalidCharacterError"
    by (rule decode_response_invalid)
next
  fix resp j and s :: state
  assume "j < length (jobs s)" "pipeline (jobs s ! j) = Fulfilled None"
  then show "entry (jobs (settle j resp s) ! j) = Fulfilled None" by (rule settle_noop_null)
next
  fix pf tx lg and s :: state
  assume "trim tx = []"
  then show "fst (fetchAndDecodeTTS_call pf tx lg s) = Fulfilled None"
    by (simp add: fetchAndDecodeTTS_call_def falsy_def)
qed

theorem cached_promise_never_rejects_witness:
  "reachable demo_platform (the (run demo_platform [CallPlay demo_text demo_lang, Resumed 0 True] init))
   \<and> (0 :: nat) < length (jobs (the (run demo_platform [CallPlay demo_text demo_lang, Resumed 0 True] init)))
   \<and> entry (jobs (the (run demo_platform [CallPlay demo_text demo_lang, Resumed 0 True] init)) ! 0) = Pending
   \<and> pipeline (jobs (the (run demo_platform [CallPlay demo_text demo_lang, Resumed 0 True] init)) ! 0) = Pending
   \<and> entry (jobs (the (run demo_platform [CallPlay demo_text demo_lang, Resumed 0 True] init)) ! 0)
        \<noteq> Rejected TransportError
   \<and> step demo_platform (Settle 0 Failure)
        (the (run demo_platform [CallPlay demo_text demo_lang, Resumed 0 True] init))
      = Some (settle 0 Failure (the (run demo_platform [CallPlay demo_text demo_lang, Resumed 0 True] init)))
   \<and> pipeline (jobs (settle 0 Failure
        (the (run demo_platform [CallPlay demo_text demo_lang, Resumed 0 True] init))) ! 0)
      = Rejected TransportError
   \<and> entry (jobs (settle 0 Failure
        (the (run demo_platform [CallPlay demo_text demo_lang, Resumed 0 True] init))) ! 0)
      = Fulfilled None"
proof -
  let ?s = "the (run demo_platform [CallPlay demo_text demo_lang, Resumed 0 True] init)"
  have r: "reachable demo_platform ?s"
    by (rule reachable_run_init[of _ "[CallPlay demo_text demo_lang, Resumed 0 True]"])
      (simp only: run_play_pending option.sel)
  have l: "(0 :: nat) < length (jobs ?s)" and e: "entry (jobs ?s ! 0) = Pending"
    and p: "pipeline (jobs ?s ! 0) = Pending"
    unfolding run_play_pending by simp_all
  note t = cached_promise_never_rejects
  note t1 = t[THEN conjunct1, rule_format]
  note t2 = t[THEN conjunct2, THEN conjunct1, rule_format]
  note t3 = t[THEN conjunct2, THEN conjunct2, THEN conjunct1, rule_format]
  note t4 = t[THEN conjunct2, THEN conjunct2, THEN conjunct2, THEN conjunct1]
  have 1: "entry (jobs ?s ! 0) \<noteq> Rejected TransportError" using r l by (rule t1)
  have 2: "step demo_platform (Settle 0 Failure) ?s = Some (settle 0 Failure ?s)"
    using t2[OF l e] by (rule conjunct1)
  have 3: "pipeline (jobs (settle 0 Failure ?s) ! 0) = Rejected TransportError
         \<and> entry (jobs (settle 0 Failure ?s) ! 0) = Fulfilled None"
    using l p t4 by (rule t3)
  show ?thesis using r l e p 1 2 3 by blast
qed

end
